theory Spec2Isabelle
  imports Main "HOL-Library.Char_ord" "HOL-Library.List_Lexorder"
begin

section \<open>The syntax tree read by the extractor\<close>

text \<open>
  \<^verbatim>\<open>src/utils/nextIntlSrcParser.ts\<close> walks the tree that the TypeScript parser
  builds. The parser and the file system are outside the program; the tree is the
  input. Every syntax kind that the extractor tests with a \<^verbatim>\<open>ts.isX\<close> predicate is a
  constructor of its own. Every other kind is an \<open>OtherNode\<close> that carries the
  answer of \<^verbatim>\<open>ts.isFunctionLike\<close> and its children (a block, a statement list, a
  function declaration, an omitted array element, a type, a modifier, a token, ...).

  The first field of every constructor holds the texts of the comment ranges that
  \<^verbatim>\<open>ts.getLeadingCommentRanges(sourceFile.getFullText(), node.getFullStart())\<close>
  finds for the node: the source text itself is not part of the model.
  After the comments the fields are the children of the node, all of them and in the
  order of \<^verbatim>\<open>ts.forEachChild\<close>; the children that the extractor does not read
  by name are kept in lists and options of their own:
  \<^item> \<open>Identifier\<close>, \<open>StringLiteral\<close>: the text (no children);
  \<^item> \<open>TemplateExpression\<close>: the head and the spans;
  \<^item> \<open>CallExpression\<close>: \<^verbatim>\<open>expression\<close>, then \<^verbatim>\<open>questionDotToken\<close> and
    \<^verbatim>\<open>typeArguments\<close>, then \<^verbatim>\<open>arguments\<close>;
  \<^item> \<open>PropertyAccessExpression\<close>: \<^verbatim>\<open>expression\<close>, \<^verbatim>\<open>questionDotToken\<close>, \<^verbatim>\<open>name\<close>;
  \<^item> \<open>AwaitExpression\<close>, \<open>ExpressionStatement\<close>: \<^verbatim>\<open>expression\<close>;
  \<^item> \<open>VariableDeclaration\<close>: \<^verbatim>\<open>name\<close>, \<^verbatim>\<open>exclamationToken\<close>, \<^verbatim>\<open>type\<close>,
    \<^verbatim>\<open>initializer\<close>;
  \<^item> \<open>ArrowFunction\<close>: \<^verbatim>\<open>modifiers\<close> and \<^verbatim>\<open>typeParameters\<close>, then
    \<^verbatim>\<open>parameters\<close>, then \<^verbatim>\<open>type\<close> and \<^verbatim>\<open>equalsGreaterThanToken\<close>, then \<^verbatim>\<open>body\<close>;
  \<^item> \<open>Parameter\<close>: \<^verbatim>\<open>modifiers\<close> and \<^verbatim>\<open>dotDotDotToken\<close>, then \<^verbatim>\<open>name\<close>,
    \<^verbatim>\<open>questionToken\<close>, \<^verbatim>\<open>type\<close>, \<^verbatim>\<open>initializer\<close>;
  \<^item> \<open>FunctionTypeNode\<close>: \<^verbatim>\<open>modifiers\<close> and \<^verbatim>\<open>typeParameters\<close>, then
    \<^verbatim>\<open>parameters\<close>, then \<^verbatim>\<open>type\<close>;
  \<^item> \<open>TypeReferenceNode\<close>: \<^verbatim>\<open>typeName\<close>, \<^verbatim>\<open>typeArguments\<close>;
  \<^item> \<open>ObjectLiteralExpression\<close>: \<^verbatim>\<open>properties\<close>;
  \<^item> \<open>PropertyAssignment\<close>: \<^verbatim>\<open>modifiers\<close>, then \<^verbatim>\<open>name\<close>, then
    \<^verbatim>\<open>questionToken\<close> and \<^verbatim>\<open>exclamationToken\<close>, then \<^verbatim>\<open>initializer\<close>;
  \<^item> \<open>ArrayLiteralExpression\<close>, \<open>ArrayBindingPattern\<close>: \<^verbatim>\<open>elements\<close>;
  \<^item> \<open>BindingElement\<close>: \<^verbatim>\<open>dotDotDotToken\<close> and \<^verbatim>\<open>propertyName\<close>, then
    \<^verbatim>\<open>name\<close>, then \<^verbatim>\<open>initializer\<close>.
\<close>

datatype node =
    Identifier "string list" string
  | StringLiteral "string list" string
  | TemplateExpression "string list" "node list"
  | CallExpression "string list" node "node list" "node list"
  | PropertyAccessExpression "string list" node "node option" node
  | AwaitExpression "string list" node
  | ExpressionStatement "string list" node
  | VariableDeclaration "string list" node "node option" "node option" "node option"
  | ArrowFunction "string list" "node list" "node list" "node list" node
  | Parameter "string list" "node list" node "node option" "node option" "node option"
  | FunctionTypeNode "string list" "node list" "node list" node
  | TypeReferenceNode "string list" node "node list"
  | ObjectLiteralExpression "string list" "node list"
  | PropertyAssignment "string list" "node list" node "node list" node
  | ArrayLiteralExpression "string list" "node list"
  | ArrayBindingPattern "string list" "node list"
  | BindingElement "string list" "node list" node "node option"
  | OtherNode "string list" bool "node list"

text \<open>A parsed source file: the children of the \<^verbatim>\<open>SourceFile\<close> node.\<close>

type_synonym sourceFile = "node list"

text \<open>
  What \<^verbatim>\<open>fs.readFileSync\<close> followed by \<^verbatim>\<open>ts.createSourceFile\<close> gives for a path.
\<close>

type_synonym fileSystem = "string \<Rightarrow> sourceFile"

fun optionalChild :: "node option \<Rightarrow> node list" where
  "optionalChild None = []"
| "optionalChild (Some n) = [n]"

text \<open>\<^verbatim>\<open>ts.forEachChild\<close>: the children of a node, in visiting order.\<close>

fun children :: "node \<Rightarrow> node list" where
  "children (Identifier cs t) = []"
| "children (StringLiteral cs t) = []"
| "children (TemplateExpression cs parts) = parts"
| "children (CallExpression cs e targs args) = e # targs @ args"
| "children (PropertyAccessExpression cs e qd n) = e # optionalChild qd @ [n]"
| "children (AwaitExpression cs e) = [e]"
| "children (ExpressionStatement cs e) = [e]"
| "children (VariableDeclaration cs n excl ty ini) =
     n # optionalChild excl @ optionalChild ty @ optionalChild ini"
| "children (ArrowFunction cs mods ps post body) = mods @ ps @ post @ [body]"
| "children (Parameter cs mods n qt ty ini) =
     mods @ n # optionalChild qt @ optionalChild ty @ optionalChild ini"
| "children (FunctionTypeNode cs mods ps ty) = mods @ ps @ [ty]"
| "children (TypeReferenceNode cs n targs) = n # targs"
| "children (ObjectLiteralExpression cs props) = props"
| "children (PropertyAssignment cs mods n toks ini) = mods @ n # toks @ [ini]"
| "children (ArrayLiteralExpression cs elems) = elems"
| "children (ArrayBindingPattern cs elems) = elems"
| "children (BindingElement cs mods n ini) = mods @ n # optionalChild ini"
| "children (OtherNode cs fl kids) = kids"

fun leadingComments :: "node \<Rightarrow> string list" where
  "leadingComments (Identifier cs t) = cs"
| "leadingComments (StringLiteral cs t) = cs"
| "leadingComments (TemplateExpression cs parts) = cs"
| "leadingComments (CallExpression cs e targs args) = cs"
| "leadingComments (PropertyAccessExpression cs e qd n) = cs"
| "leadingComments (AwaitExpression cs e) = cs"
| "leadingComments (ExpressionStatement cs e) = cs"
| "leadingComments (VariableDeclaration cs n excl ty ini) = cs"
| "leadingComments (ArrowFunction cs mods ps post body) = cs"
| "leadingComments (Parameter cs mods n qt ty ini) = cs"
| "leadingComments (FunctionTypeNode cs mods ps ty) = cs"
| "leadingComments (TypeReferenceNode cs n targs) = cs"
| "leadingComments (ObjectLiteralExpression cs props) = cs"
| "leadingComments (PropertyAssignment cs mods n toks ini) = cs"
| "leadingComments (ArrayLiteralExpression cs elems) = cs"
| "leadingComments (ArrayBindingPattern cs elems) = cs"
| "leadingComments (BindingElement cs mods n ini) = cs"
| "leadingComments (OtherNode cs fl kids) = cs"

text \<open>
  \<^verbatim>\<open>ts.isFunctionLike\<close>: of the kinds with a constructor of their own, arrow
  functions and function types are function-like.
\<close>

fun isFunctionLike :: "node \<Rightarrow> bool" where
  "isFunctionLike (ArrowFunction cs mods ps post body) = True"
| "isFunctionLike (FunctionTypeNode cs mods ps ty) = True"
| "isFunctionLike (OtherNode cs fl kids) = fl"
| "isFunctionLike n = False"

fun isIdentifier :: "node \<Rightarrow> bool" where
  "isIdentifier (Identifier cs t) = True"
| "isIdentifier n = False"

fun isStringLiteral :: "node \<Rightarrow> bool" where
  "isStringLiteral (StringLiteral cs t) = True"
| "isStringLiteral n = False"

fun isTemplateExpression :: "node \<Rightarrow> bool" where
  "isTemplateExpression (TemplateExpression cs parts) = True"
| "isTemplateExpression n = False"

fun isObjectLiteralExpression :: "node \<Rightarrow> bool" where
  "isObjectLiteralExpression (ObjectLiteralExpression cs props) = True"
| "isObjectLiteralExpression n = False"

lemma size_optionalChild: "c \<in> set (optionalChild x) \<Longrightarrow> size c < Suc (size_option size x)"
  by (cases x) auto

lemma size_list_member: "c \<in> set cs \<Longrightarrow> size c < Suc (size_list size cs)"
  by (induction cs) auto

lemma size_children: "c \<in> set (children n) \<Longrightarrow> size c < size n"
  by (cases n) (auto dest: size_optionalChild size_list_member)

section \<open>Constants and records\<close>

definition USE_TRANSLATIONS :: string where
  "USE_TRANSLATIONS = ''useTranslations''"

definition GET_TRANSLATIONS :: string where
  "GET_TRANSLATIONS = ''getTranslations''"

record FunctionWithTParam =
  functionName :: string
  paramName :: string
  keysUsed :: "string list"

text \<open>
  \<^verbatim>\<open>type Namespace = { name: string; variable: string; dynamic?: boolean }\<close>.
  The optional flag is only ever written as \<^verbatim>\<open>true\<close> and only read for its truth
  value, so an absent flag is \<open>False\<close>.
\<close>

record Namespace =
  name :: string
  variable :: string
  dynamic :: bool

text \<open>
  An element of \<^verbatim>\<open>foundKeys\<close>: \<^verbatim>\<open>{ key, meta: { file, namespace?, dynamic? } }\<close>.
  \<open>meta_namespace\<close> is \<open>None\<close> where the source stores \<^verbatim>\<open>undefined\<close>;
  \<open>meta_dynamic\<close> is \<open>False\<close> where the source leaves the flag out.
\<close>

record FoundKey =
  key :: string
  meta_file :: string
  meta_namespace :: "string option"
  meta_dynamic :: bool

text \<open>The template \<^verbatim>\<open>ns ? `${ns}.${k}` : k\<close> that every emitting site repeats.\<close>

definition qualify :: "string \<Rightarrow> string \<Rightarrow> string" where
  "qualify ns k = (if ns \<noteq> [] then ns @ ''.'' @ k else k)"

section \<open>Pass 1: collectFunctionsWithTParam\<close>

text \<open>
  \<^verbatim>\<open>visitFunctionBody\<close> (lines 69-81): a call whose callee is the identifier
  \<open>pn\<close> and whose first argument is a string literal appends the literal to
  \<^verbatim>\<open>keysUsed\<close>; then the children are visited.
\<close>

fun bodyKey :: "string \<Rightarrow> node \<Rightarrow> string list" where
  "bodyKey pn (CallExpression cs (Identifier cs' t) targs (StringLiteral cs'' k # args)) =
     (if t = pn then [k] else [])"
| "bodyKey pn n = []"

function visitFunctionBody :: "string \<Rightarrow> node \<Rightarrow> string list \<Rightarrow> string list" where
  "visitFunctionBody pn bodyNode used =
     fold (visitFunctionBody pn) (children bodyNode) (used @ bodyKey pn bodyNode)"
  by pat_completeness auto
termination
  by (relation "measure (\<lambda>(pn, n, used). size n)") (auto dest: size_children)

declare visitFunctionBody.simps [simp del]

text \<open>
  Lines 43-93: the record that a variable declaration registers, if any. The
  initializer is an arrow function with at least one parameter; the first parameter
  is a \<^verbatim>\<open>Parameter\<close> whose name is an identifier and whose type annotation is a
  function type or a type reference; the declared name is an identifier with a
  non-empty text. The body scan starts at the children of the body
  (\<^verbatim>\<open>ts.forEachChild(node.initializer.body, visitFunctionBody)\<close>), and the record
  is kept only when a key was found.
\<close>

fun isTranslatorType :: "node \<Rightarrow> bool" where
  "isTranslatorType (FunctionTypeNode cs mods ps ty) = True"
| "isTranslatorType (TypeReferenceNode cs n targs) = True"
| "isTranslatorType n = False"

fun functionTracker :: "node \<Rightarrow> FunctionWithTParam option" where
  "functionTracker (VariableDeclaration cs nm excl ty
       (Some (ArrowFunction cs1 mods1
                (Parameter cs2 mods2 (Identifier cs3 pn) qt2 (Some pty) pini # ps) post1 body))) =
     (if isTranslatorType pty then
        (case nm of
           Identifier cs4 fn \<Rightarrow>
             (if fn \<noteq> [] then
                Some \<lparr>functionName = fn, paramName = pn,
                      keysUsed = fold (visitFunctionBody pn) (children body) []\<rparr>
              else None)
         | _ \<Rightarrow> None)
      else None)"
| "functionTracker n = None"

definition registerFunction :: "node \<Rightarrow> FunctionWithTParam list \<Rightarrow> FunctionWithTParam list" where
  "registerFunction n reg =
     (case functionTracker n of
        Some tracker \<Rightarrow> (if keysUsed tracker \<noteq> [] then reg @ [tracker] else reg)
      | None \<Rightarrow> reg)"

text \<open>The \<^verbatim>\<open>visit\<close> of pass 1 (lines 41-96).\<close>

function collectVisit :: "node \<Rightarrow> FunctionWithTParam list \<Rightarrow> FunctionWithTParam list" where
  "collectVisit n reg = fold collectVisit (children n) (registerFunction n reg)"
  by pat_completeness auto
termination
  by (relation "measure (\<lambda>(n, reg). size n)") (auto dest: size_children)

declare collectVisit.simps [simp del]

definition collectFunctionsWithTParam ::
  "fileSystem \<Rightarrow> string \<Rightarrow> FunctionWithTParam list \<Rightarrow> FunctionWithTParam list" where
  "collectFunctionsWithTParam fs path reg = fold collectVisit (fs path) reg"

section \<open>Pass 2: getKeys\<close>

record state =
  namespaces :: "Namespace list"
  foundKeys :: "FoundKey list"

subsection \<open>The namespace stack (lines 118-148)\<close>

text \<open>
  \<^verbatim>\<open>namespaces.slice(namespaces.length - range)\<close> and
  \<^verbatim>\<open>namespaces.slice(0, namespaces.length - range)\<close>: a negative index counts from
  the end of the array, and is cut off at 0.
\<close>

definition getCurrentNamespaces :: "nat \<Rightarrow> Namespace list \<Rightarrow> Namespace list option" where
  "getCurrentNamespaces rng ns =
     (if length ns > 0 then
        Some (if rng \<le> length ns then drop (length ns - rng) ns
              else drop (2 * length ns - rng) ns)
      else None)"

definition getCurrentNamespaceForIdentifier :: "string \<Rightarrow> Namespace list \<Rightarrow> Namespace option" where
  "getCurrentNamespaceForIdentifier v ns = find (\<lambda>namespace. variable namespace = v) (rev ns)"

definition pushNamespace :: "Namespace \<Rightarrow> Namespace list \<Rightarrow> Namespace list" where
  "pushNamespace namespace ns = ns @ [namespace]"

definition setNamespaceAsDynamic :: "string \<Rightarrow> Namespace list \<Rightarrow> Namespace list" where
  "setNamespaceAsDynamic nm ns =
     map (\<lambda>namespace. if name namespace = nm then namespace\<lparr>dynamic := True\<rparr> else namespace) ns"

definition removeNamespaces :: "nat \<Rightarrow> Namespace list \<Rightarrow> Namespace list" where
  "removeNamespaces rng ns =
     (if length ns > 0 then
        (if rng \<le> length ns then take (length ns - rng) ns
         else take (2 * length ns - rng) ns)
      else ns)"

subsection \<open>Translator acquisition (lines 158-281)\<close>

text \<open>\<^verbatim>\<open>ts.isIdentifier(node.name) ? node.name.text : 't'\<close>\<close>

definition variableOf :: "node \<Rightarrow> string" where
  "variableOf nm = (case nm of Identifier cs t \<Rightarrow> t | _ \<Rightarrow> ''t'')"

text \<open>
  The test of lines 199-206 and 262-269 on a property of the object literal: a
  property assignment whose name is the identifier \<^verbatim>\<open>namespace\<close> and whose
  initializer is a string literal.
\<close>

definition namespaceProperty :: "node \<Rightarrow> string option" where
  "namespaceProperty property =
     (case property of
        PropertyAssignment cs mods (Identifier cs1 n) toks (StringLiteral cs2 v) \<Rightarrow>
          (if n = ''namespace'' then Some v else None)
      | _ \<Rightarrow> None)"

text \<open>Lines 164-173: \<^verbatim>\<open>var = useTranslations(argument?)\<close>.\<close>

definition acquireUseTranslations :: "node \<Rightarrow> node list \<Rightarrow> Namespace list \<Rightarrow> Namespace list" where
  "acquireUseTranslations nm args ns =
     (case args of
        [] \<Rightarrow> pushNamespace \<lparr>name = [], variable = variableOf nm, dynamic = False\<rparr> ns
      | argument # rest \<Rightarrow>
          (case argument of
             StringLiteral cs v \<Rightarrow>
               pushNamespace \<lparr>name = v, variable = variableOf nm, dynamic = False\<rparr> ns
           | _ \<Rightarrow> ns))"

text \<open>
  Lines 195-216: \<^verbatim>\<open>var = await getTranslations(argument?)\<close>. For an object
  literal, every property pushes a frame: the \<^verbatim>\<open>namespace\<close> property one with its
  literal, every other property one with the empty name (the \<^verbatim>\<open>else\<close> of line 208).
\<close>

definition acquireGetTranslations :: "node \<Rightarrow> node list \<Rightarrow> Namespace list \<Rightarrow> Namespace list" where
  "acquireGetTranslations nm args ns =
     (case args of
        [] \<Rightarrow> pushNamespace \<lparr>name = [], variable = variableOf nm, dynamic = False\<rparr> ns
      | argument # rest \<Rightarrow>
          (case argument of
             ObjectLiteralExpression cs props \<Rightarrow>
               fold (\<lambda>property.
                       case namespaceProperty property of
                         Some v \<Rightarrow> pushNamespace \<lparr>name = v, variable = variableOf nm, dynamic = False\<rparr>
                       | None \<Rightarrow> pushNamespace \<lparr>name = [], variable = variableOf nm, dynamic = False\<rparr>)
                    props ns
           | StringLiteral cs v \<Rightarrow>
               pushNamespace \<lparr>name = v, variable = variableOf nm, dynamic = False\<rparr> ns
           | _ \<Rightarrow> ns))"

text \<open>\<^verbatim>\<open>Array.prototype.findIndex\<close>; \<open>None\<close> stands for \<^verbatim>\<open>-1\<close>.\<close>

fun findIndex :: "('a \<Rightarrow> bool) \<Rightarrow> 'a list \<Rightarrow> nat option" where
  "findIndex p [] = None"
| "findIndex p (x # xs) =
     (if p x then Some 0 else (case findIndex p xs of None \<Rightarrow> None | Some i \<Rightarrow> Some (Suc i)))"

text \<open>The predicate of lines 233-239: a call of the identifier \<^verbatim>\<open>getTranslations\<close>.\<close>

definition isGetTranslationsCall :: "node \<Rightarrow> bool" where
  "isGetTranslationsCall argument =
     (case argument of
        CallExpression cs callee targs args \<Rightarrow>
          (case callee of Identifier cs1 f \<Rightarrow> f = GET_TRANSLATIONS | _ \<Rightarrow> False)
      | _ \<Rightarrow> False)"

text \<open>
  Lines 249-277, once the variable is known: the frames pushed for the arguments of
  the located call. Here a property other than \<^verbatim>\<open>namespace\<close> pushes nothing.
\<close>

definition acquireFromElement :: "string \<Rightarrow> node \<Rightarrow> Namespace list \<Rightarrow> Namespace list" where
  "acquireFromElement v element ns =
     (case (case element of CallExpression cs e targs args \<Rightarrow> args | _ \<Rightarrow> []) of
        [] \<Rightarrow> pushNamespace \<lparr>name = [], variable = v, dynamic = False\<rparr> ns
      | argument # rest \<Rightarrow>
          (case argument of
             ObjectLiteralExpression cs props \<Rightarrow>
               fold (\<lambda>property.
                       case namespaceProperty property of
                         Some x \<Rightarrow> pushNamespace \<lparr>name = x, variable = v, dynamic = False\<rparr>
                       | None \<Rightarrow> id)
                    props ns
           | StringLiteral cs x \<Rightarrow> pushNamespace \<lparr>name = x, variable = v, dynamic = False\<rparr> ns
           | _ \<Rightarrow> ns))"

text \<open>
  Lines 226-279: \<^verbatim>\<open>[.., var, ..] = await f([.., getTranslations(..), ..])\<close>.
  The callee \<open>f\<close> of the awaited call is not inspected. The index is that of the
  first \<^verbatim>\<open>getTranslations\<close> call of the array literal. When the declared name is an
  array binding pattern with no element at that index,
  \<^verbatim>\<open>ts.isBindingElement(node.name.elements[functionNameIndex])\<close> reads the kind of
  \<^verbatim>\<open>undefined\<close> and throws a TypeError: the result is \<open>None\<close>.
\<close>

definition acquirePromiseAll :: "node \<Rightarrow> node list \<Rightarrow> Namespace list \<Rightarrow> Namespace list option" where
  "acquirePromiseAll nm args ns =
     (case args of
        [] \<Rightarrow> Some ns
      | first # rest \<Rightarrow>
          (case first of
             ArrayLiteralExpression cs elems \<Rightarrow>
               (case findIndex isGetTranslationsCall elems of
                  None \<Rightarrow> Some ns
                | Some functionNameIndex \<Rightarrow>
                    (case nm of
                       ArrayBindingPattern cs1 bound \<Rightarrow>
                         (if functionNameIndex < length bound then
                            (case bound ! functionNameIndex of
                               BindingElement cs2 mods2 bn bini \<Rightarrow>
                                 (case bn of
                                    Identifier cs3 v \<Rightarrow>
                                      Some (acquireFromElement v (elems ! functionNameIndex) ns)
                                  | _ \<Rightarrow> Some ns)
                             | _ \<Rightarrow> Some ns)
                          else None)
                     | _ \<Rightarrow> Some ns))
           | _ \<Rightarrow> Some ns))"

text \<open>Lines 158-281 as a whole.\<close>

definition acquire :: "node \<Rightarrow> Namespace list \<Rightarrow> Namespace list option" where
  "acquire n ns =
     (case n of
        VariableDeclaration cs nm excl ty (Some ini) \<Rightarrow>
          (case ini of
             CallExpression cs1 callee targs1 args \<Rightarrow>
               (case callee of
                  Identifier cs2 f \<Rightarrow>
                    Some (if f = USE_TRANSLATIONS then acquireUseTranslations nm args ns else ns)
                | _ \<Rightarrow> Some ns)
           | AwaitExpression cs1 awaited \<Rightarrow>
               (case awaited of
                  CallExpression cs2 callee targs2 args \<Rightarrow>
                    acquirePromiseAll nm args
                      (case callee of
                         Identifier cs3 f \<Rightarrow>
                           (if f = GET_TRANSLATIONS then acquireGetTranslations nm args ns else ns)
                       | _ \<Rightarrow> ns)
                | _ \<Rightarrow> Some ns)
           | _ \<Rightarrow> Some ns)
      | _ \<Rightarrow> Some ns)"

subsection \<open>Calls of registered helper functions (lines 285-332)\<close>

text \<open>The two \<^verbatim>\<open>keysUsed.forEach\<close> loops (lines 306-311 and 322-327).\<close>

definition pushKeys :: "string \<Rightarrow> string \<Rightarrow> string list \<Rightarrow> FoundKey list \<Rightarrow> FoundKey list" where
  "pushKeys path ns ks found =
     found @ map (\<lambda>keyName. \<lparr>key = qualify ns keyName, meta_file = path,
                              meta_namespace = Some ns, meta_dynamic = False\<rparr>) ks"

text \<open>Pattern 1 (lines 296-313): the argument is \<^verbatim>\<open>useTranslations(<literal>)\<close>.\<close>

definition helperPattern1 :: "string \<Rightarrow> FunctionWithTParam \<Rightarrow> node \<Rightarrow> state \<Rightarrow> state" where
  "helperPattern1 path trackedFunction argument s =
     (case argument of
        CallExpression cs callee targs nargs \<Rightarrow>
          (case callee of
             Identifier cs1 f \<Rightarrow>
               (if f = USE_TRANSLATIONS then
                  (case nargs of
                     [] \<Rightarrow> s
                   | namespaceArg # rest \<Rightarrow>
                       (case namespaceArg of
                          StringLiteral cs2 ns \<Rightarrow>
                            s\<lparr>foundKeys := pushKeys path ns (keysUsed trackedFunction) (foundKeys s)\<rparr>
                        | _ \<Rightarrow> s))
                else s)
           | _ \<Rightarrow> s)
      | _ \<Rightarrow> s)"

text \<open>Pattern 2 (lines 316-329): the argument is an identifier bound to a frame.\<close>

definition helperPattern2 :: "string \<Rightarrow> FunctionWithTParam \<Rightarrow> node \<Rightarrow> state \<Rightarrow> state" where
  "helperPattern2 path trackedFunction argument s =
     (case argument of
        Identifier cs variableName \<Rightarrow>
          (case getCurrentNamespaceForIdentifier variableName (namespaces s) of
             Some namespace \<Rightarrow>
               s\<lparr>foundKeys := pushKeys path (name namespace) (keysUsed trackedFunction) (foundKeys s)\<rparr>
           | None \<Rightarrow> s)
      | _ \<Rightarrow> s)"

definition helperCalls :: "FunctionWithTParam list \<Rightarrow> string \<Rightarrow> node \<Rightarrow> state \<Rightarrow> state" where
  "helperCalls reg path n s =
     (case n of
        CallExpression cs callee targs args \<Rightarrow>
          (case callee of
             Identifier cs1 calledFunctionName \<Rightarrow>
               (case find (\<lambda>f. functionName f = calledFunctionName) reg of
                  None \<Rightarrow> s
                | Some trackedFunction \<Rightarrow>
                    (case args of
                       [] \<Rightarrow> s
                     | argument # rest \<Rightarrow>
                         helperPattern2 path trackedFunction argument
                           (helperPattern1 path trackedFunction argument s)))
           | _ \<Rightarrow> s)
      | _ \<Rightarrow> s)"

subsection \<open>Inline calls in expression statements (lines 339-382)\<close>

text \<open>
  The first test (lines 343-353) stores the namespace of
  \<^verbatim>\<open>useTranslations("ns1")("one")\<close> in \<^verbatim>\<open>inlineNamespace\<close>. The only
  \<^verbatim>\<open>foundKeys.push\<close> stands inside the second test (lines 355-380), whose callee is
  a property access.
\<close>

definition firstStringLiteral :: "node list \<Rightarrow> string option" where
  "firstStringLiteral args =
     (case args of
        [] \<Rightarrow> None
      | argument # rest \<Rightarrow> (case argument of StringLiteral cs v \<Rightarrow> Some v | _ \<Rightarrow> None))"

definition inlineCalls :: "string \<Rightarrow> node \<Rightarrow> state \<Rightarrow> state" where
  "inlineCalls path n s =
     (case n of
        ExpressionStatement cs expr \<Rightarrow>
          (case expr of
             CallExpression cs1 callee targs1 args \<Rightarrow>
               (let inlineNamespace =
                      (case callee of
                         CallExpression cs2 inner targs2 uargs \<Rightarrow>
                           (case inner of
                              Identifier cs3 f \<Rightarrow>
                                (if f = USE_TRANSLATIONS then firstStringLiteral uargs else None)
                            | _ \<Rightarrow> None)
                       | _ \<Rightarrow> None)
                in (case callee of
                      PropertyAccessExpression cs2 obj qd2 method \<Rightarrow>
                        (case obj of
                           CallExpression cs3 inner targs3 uargs \<Rightarrow>
                             (case inner of
                                Identifier cs4 f \<Rightarrow>
                                  (if f = USE_TRANSLATIONS then
                                     (let inlineNamespace' =
                                            (case firstStringLiteral uargs of
                                               Some v \<Rightarrow> Some v
                                             | None \<Rightarrow> inlineNamespace)
                                      in (case firstStringLiteral args of
                                            Some k \<Rightarrow>
                                              (if k \<noteq> [] then
                                                 s\<lparr>foundKeys := foundKeys s @
                                                    [\<lparr>key = qualify (case inlineNamespace' of
                                                                        Some v \<Rightarrow> v | None \<Rightarrow> []) k,
                                                      meta_file = path,
                                                      meta_namespace = inlineNamespace',
                                                      meta_dynamic = False\<rparr>]\<rparr>
                                               else s)
                                          | None \<Rightarrow> s))
                                   else s)
                              | _ \<Rightarrow> s)
                         | _ \<Rightarrow> s)
                    | _ \<Rightarrow> s))
           | _ \<Rightarrow> s)
      | _ \<Rightarrow> s)"

subsection \<open>Calls through a translator variable (lines 384-432)\<close>

text \<open>
  Lines 391-401 and 412-422 are the same text: the body of both searches once the
  name of the translator is known. The local variable \<^verbatim>\<open>key\<close> travels with the state.
\<close>

definition translatorCall ::
  "string \<Rightarrow> node list \<Rightarrow> (string \<times> string) option \<times> state \<Rightarrow> (string \<times> string) option \<times> state" where
  "translatorCall expressionName args ks =
     (case getCurrentNamespaceForIdentifier expressionName (namespaces (snd ks)) of
        None \<Rightarrow> ks
      | Some namespace \<Rightarrow>
          (case args of
             [] \<Rightarrow> ks
           | argument # rest \<Rightarrow>
               (case argument of
                  StringLiteral cs x \<Rightarrow> (Some (x, expressionName), snd ks)
                | Identifier cs x \<Rightarrow>
                    (fst ks, (snd ks)\<lparr>namespaces :=
                       setNamespaceAsDynamic (name namespace) (namespaces (snd ks))\<rparr>)
                | TemplateExpression cs parts \<Rightarrow>
                    (fst ks, (snd ks)\<lparr>namespaces :=
                       setNamespaceAsDynamic (name namespace) (namespaces (snd ks))\<rparr>)
                | _ \<Rightarrow> ks)))"

text \<open>The search for \<^verbatim>\<open>t()\<close> calls (lines 385-402).\<close>

definition directCall ::
  "node \<Rightarrow> (string \<times> string) option \<times> state \<Rightarrow> (string \<times> string) option \<times> state" where
  "directCall n ks =
     (if getCurrentNamespaces 1 (namespaces (snd ks)) \<noteq> None then
        (case n of
           CallExpression cs callee targs args \<Rightarrow>
             (case callee of
                Identifier cs1 expressionName \<Rightarrow> translatorCall expressionName args ks
              | _ \<Rightarrow> ks)
         | _ \<Rightarrow> ks)
      else ks)"

text \<open>The search for \<^verbatim>\<open>t.*()\<close> calls (lines 405-423).\<close>

definition methodCall ::
  "node \<Rightarrow> (string \<times> string) option \<times> state \<Rightarrow> (string \<times> string) option \<times> state" where
  "methodCall n ks =
     (if getCurrentNamespaces 1 (namespaces (snd ks)) \<noteq> None then
        (case n of
           CallExpression cs callee targs args \<Rightarrow>
             (case callee of
                PropertyAccessExpression cs1 obj qd1 method \<Rightarrow>
                  (case obj of
                     Identifier cs2 expressionName \<Rightarrow> translatorCall expressionName args ks
                   | _ \<Rightarrow> ks)
              | _ \<Rightarrow> ks)
         | _ \<Rightarrow> ks)
      else ks)"

text \<open>Lines 425-432.\<close>

definition emitKey :: "string \<Rightarrow> (string \<times> string) option \<times> state \<Rightarrow> state" where
  "emitKey path ks =
     (case fst ks of
        None \<Rightarrow> snd ks
      | Some k \<Rightarrow>
          (let namespaceName =
                 (case getCurrentNamespaceForIdentifier (snd k) (namespaces (snd ks)) of
                    Some namespace \<Rightarrow> name namespace
                  | None \<Rightarrow> [])
           in (snd ks)\<lparr>foundKeys := foundKeys (snd ks) @
                 [\<lparr>key = qualify namespaceName (fst k), meta_file = path,
                   meta_namespace = Some namespaceName, meta_dynamic = False\<rparr>]\<rparr>))"

subsection \<open>Static keys in comments (lines 434-470)\<close>

text \<open>
  \<^verbatim>\<open>COMMENT_CONTAINS_STATIC_KEY_REGEX = /t\((["'])(.*?[^\\])(["'])\)/\<close>.
  \<open>lazyGroup\<close> is the second group once \<^verbatim>\<open>t(\<close> and a quote are read: the shortest
  run of characters other than line terminators, then one character other than a
  backslash, that a quote and \<^verbatim>\<open>)\<close> follow. \<open>staticKeyOfComment\<close> is
  \<^verbatim>\<open>exec(comment)?.[2]\<close>: the group of the leftmost start that matches. Characters
  are bytes here, so the line terminators are LF and CR.
\<close>

definition isQuote :: "char \<Rightarrow> bool" where
  "isQuote c = (c = CHR 0x22 \<or> c = CHR 0x27)"

definition isLineTerminator :: "char \<Rightarrow> bool" where
  "isLineTerminator c = (c = CHR 0x0A \<or> c = CHR 0x0D)"

fun lazyGroup :: "string \<Rightarrow> string \<Rightarrow> string option" where
  "lazyGroup acc (c # q # p # rest) =
     (if c \<noteq> CHR 0x5C \<and> isQuote q \<and> p = CHR '')'' then Some (rev (c # acc))
      else if isLineTerminator c then None
      else lazyGroup (c # acc) (q # p # rest))"
| "lazyGroup acc rest = None"

fun staticKeyOfComment :: "string \<Rightarrow> string option" where
  "staticKeyOfComment (a # b # q # rest) =
     (if a = CHR ''t'' \<and> b = CHR ''('' \<and> isQuote q then
        (case lazyGroup [] rest of
           Some g \<Rightarrow> Some g
         | None \<Rightarrow> staticKeyOfComment (b # q # rest))
      else staticKeyOfComment (b # q # rest))"
| "staticKeyOfComment rest = None"

definition commentKey :: "string \<Rightarrow> string \<Rightarrow> state \<Rightarrow> state" where
  "commentKey path comment s =
     (case staticKeyOfComment comment of
        None \<Rightarrow> s
      | Some k \<Rightarrow>
          (if k \<noteq> [] then
             (let namespaceName =
                    (case getCurrentNamespaces 1 (namespaces s) of
                       None \<Rightarrow> Some []
                     | Some current \<Rightarrow>
                         (case current of [] \<Rightarrow> None | namespace # rest \<Rightarrow> Some (name namespace)))
              in s\<lparr>foundKeys := foundKeys s @
                    [\<lparr>key = qualify (case namespaceName of Some v \<Rightarrow> v | None \<Rightarrow> []) k,
                      meta_file = path, meta_namespace = namespaceName,
                      meta_dynamic = False\<rparr>]\<rparr>)
           else s))"

definition commentKeys :: "string \<Rightarrow> node \<Rightarrow> state \<Rightarrow> state" where
  "commentKeys path n s = fold (commentKey path) (leadingComments n) s"

subsection \<open>Scope exit (lines 474-493)\<close>

definition scopeExit :: "string \<Rightarrow> node \<Rightarrow> nat \<Rightarrow> state \<Rightarrow> state" where
  "scopeExit path n initialNamespacesLength s =
     (if isFunctionLike n \<and> length (namespaces s) > initialNamespacesLength then
        (let currentNamespaces =
               getCurrentNamespaces (length (namespaces s) - initialNamespacesLength) (namespaces s)
         in \<lparr>namespaces =
               removeNamespaces (length (namespaces s) - initialNamespacesLength) (namespaces s),
             foundKeys = foundKeys s @
               map (\<lambda>namespace. \<lparr>key = name namespace, meta_file = path,
                                   meta_namespace = Some (name namespace), meta_dynamic = True\<rparr>)
                   (filter dynamic (case currentNamespaces of Some c \<Rightarrow> c | None \<Rightarrow> []))\<rparr>)
      else s)"

subsection \<open>The visitor\<close>

text \<open>
  Lines 158-470 for one node, before its children are visited. \<open>None\<close> is the
  TypeError of the acquisition.
\<close>

definition visitNode :: "FunctionWithTParam list \<Rightarrow> string \<Rightarrow> node \<Rightarrow> state \<Rightarrow> state option" where
  "visitNode reg path n s =
     (case acquire n (namespaces s) of
        None \<Rightarrow> None
      | Some ns \<Rightarrow>
          Some (commentKeys path n
                 (emitKey path
                   (methodCall n
                     (directCall n
                       (None, inlineCalls path n (helperCalls reg path n (s\<lparr>namespaces := ns\<rparr>))))))))"

text \<open>
  \<^verbatim>\<open>ts.forEachChild(node, cb)\<close> for a callback that returns nothing (so no child
  stops the enumeration) but may throw.
\<close>

fun forEachChild :: "(node \<Rightarrow> state \<Rightarrow> state option) \<Rightarrow> node list \<Rightarrow> state \<Rightarrow> state option" where
  "forEachChild cb [] s = Some s"
| "forEachChild cb (c # cs) s =
     (case cb c s of
        None \<Rightarrow> None
      | Some s1 \<Rightarrow> forEachChild cb cs s1)"

lemma forEachChild_cong [fundef_cong]:
  "cs = cs' \<Longrightarrow> s = s' \<Longrightarrow> (\<And>c t. c \<in> set cs' \<Longrightarrow> cb c t = cb' c t) \<Longrightarrow>
   forEachChild cb cs s = forEachChild cb' cs' s'"
proof (induction cs arbitrary: cs' s s')
  case Nil
  then show ?case by simp
next
  case (Cons c cs)
  then show ?case by (auto split: option.splits)
qed

text \<open>
  \<^verbatim>\<open>visit\<close> (lines 150-494). A child is never \<^verbatim>\<open>undefined\<close>, so the early return
  of line 154 has no branch here.
\<close>

function visit :: "FunctionWithTParam list \<Rightarrow> string \<Rightarrow> node \<Rightarrow> state \<Rightarrow> state option" where
  "visit reg path n s =
     (case visitNode reg path n s of
        None \<Rightarrow> None
      | Some s1 \<Rightarrow>
          (case forEachChild (visit reg path) (children n) s1 of
             None \<Rightarrow> None
           | Some s2 \<Rightarrow> Some (scopeExit path n (length (namespaces s)) s2)))"
  by pat_completeness auto
termination
  by (relation "measure (\<lambda>(reg, path, n, s). size n)") (auto dest: size_children)

declare visit.simps [simp del]

definition getKeys :: "FunctionWithTParam list \<Rightarrow> fileSystem \<Rightarrow> string \<Rightarrow> FoundKey list option" where
  "getKeys reg fs path =
     (case forEachChild (visit reg path) (fs path) \<lparr>namespaces = [], foundKeys = []\<rparr> of
        None \<Rightarrow> None
      | Some s \<Rightarrow> Some (foundKeys s))"

section \<open>The entry point\<close>

text \<open>
  \<^verbatim>\<open>(a, b) => a.key > b.key ? 1 : -1\<close>, with \<^verbatim>\<open>>\<close> on strings: the
  lexicographic order of the code units.
\<close>

definition compareFn :: "FoundKey \<Rightarrow> FoundKey \<Rightarrow> int" where
  "compareFn a b = (if key a > key b then 1 else - 1)"

text \<open>
  \<^verbatim>\<open>Array.prototype.sort\<close> with a comparator. The comparator of \<^verbatim>\<open>extract\<close> never
  answers 0, so it is not a consistent comparator and ECMAScript leaves the order
  of the result to the implementation. The model is the insertion sort that V8 (the
  engine of Node.js) runs on an array of fewer than 64 elements: from left to right,
  every element is inserted into the sorted part before the first element for which
  the comparator answers a negative number (V8 finds that place by binary search,
  after it has reversed a descending run at the start; for this comparator the
  result is the same). For longer arrays V8 merges sorted runs, and the order among
  records with equal keys may differ from the model.
\<close>

fun insertSorted :: "('a \<Rightarrow> 'a \<Rightarrow> int) \<Rightarrow> 'a \<Rightarrow> 'a list \<Rightarrow> 'a list" where
  "insertSorted cmp x [] = [x]"
| "insertSorted cmp x (y # ys) =
     (if cmp x y < 0 then x # y # ys else y # insertSorted cmp x ys)"

definition arraySort :: "('a \<Rightarrow> 'a \<Rightarrow> int) \<Rightarrow> 'a list \<Rightarrow> 'a list" where
  "arraySort cmp xs = fold (insertSorted cmp) xs []"

text \<open>\<^verbatim>\<open>filesPaths.flatMap(getKeys)\<close>; an exception of one file ends the run.\<close>

fun flatMapKeys :: "(string \<Rightarrow> FoundKey list option) \<Rightarrow> string list \<Rightarrow> FoundKey list option" where
  "flatMapKeys f [] = Some []"
| "flatMapKeys f (p # ps) =
     (case f p of
        None \<Rightarrow> None
      | Some ks \<Rightarrow> (case flatMapKeys f ps of None \<Rightarrow> None | Some others \<Rightarrow> Some (ks @ others)))"

text \<open>
  \<^verbatim>\<open>extract\<close> (lines 16-29), under the name \<open>extractKeys\<close> since the source's
  name is a keyword of Isabelle. The registry starts empty, pass 1 runs over all
  files, then pass 2; a TypeError of pass 2 is the result \<open>None\<close>.
\<close>

definition registry :: "fileSystem \<Rightarrow> string list \<Rightarrow> FunctionWithTParam list" where
  "registry fs filesPaths = fold (collectFunctionsWithTParam fs) filesPaths []"

definition extractKeys :: "fileSystem \<Rightarrow> string list \<Rightarrow> FoundKey list option" where
  "extractKeys fs filesPaths =
     (case flatMapKeys (getKeys (registry fs filesPaths) fs) filesPaths of
        None \<Rightarrow> None
      | Some ks \<Rightarrow> Some (arraySort compareFn ks))"

section \<open>Notions for the proofs\<close>

text \<open>The nodes of a tree, in the order of the traversal: a node, then its subtrees.\<close>

function subnodes :: "node \<Rightarrow> node list" where
  "subnodes n = n # concat (map subnodes (children n))"
  by pat_completeness auto
termination
  by (relation "measure size") (auto dest: size_children)

declare subnodes.simps [simp del]

text \<open>
  Every frame of the first stack is a frame of the second, at the same position,
  with the same name and variable; a dynamic frame stays dynamic.
\<close>

definition framesKept :: "Namespace list \<Rightarrow> Namespace list \<Rightarrow> bool" where
  "framesKept ns ns' \<longleftrightarrow>
     length ns \<le> length ns' \<and>
     (\<forall>i<length ns. name (ns' ! i) = name (ns ! i) \<and> variable (ns' ! i) = variable (ns ! i) \<and>
        (dynamic (ns ! i) \<longrightarrow> dynamic (ns' ! i)))"

text \<open>The found keys of the second state start with those of the first.\<close>

definition keysKept :: "state \<Rightarrow> state \<Rightarrow> bool" where
  "keysKept s s' \<longleftrightarrow> (\<exists>ks. foundKeys s' = foundKeys s @ ks)"

definition grows :: "state \<Rightarrow> state \<Rightarrow> bool" where
  "grows s s' \<longleftrightarrow>
     framesKept (namespaces s) (namespaces s') \<and> (\<exists>ks. foundKeys s' = foundKeys s @ ks)"

text \<open>
  What lines 391-401 (and 412-422) do to the stack, for the translator name and the
  arguments of the call: the frames named like the frame of the translator are
  marked when the first argument is an identifier or a template expression.
\<close>

definition stackAfterCall :: "string \<Rightarrow> node list \<Rightarrow> Namespace list \<Rightarrow> Namespace list" where
  "stackAfterCall v args ns =
     (case getCurrentNamespaceForIdentifier v ns of
        None \<Rightarrow> ns
      | Some frame \<Rightarrow>
          (case args of
             [] \<Rightarrow> ns
           | a # rest \<Rightarrow>
               (if isIdentifier a \<or> isTemplateExpression a
                then setNamespaceAsDynamic (name frame) ns else ns)))"

text \<open>The marks that the two searches for translator calls leave on the stack.\<close>

definition marks :: "node \<Rightarrow> Namespace list \<Rightarrow> Namespace list" where
  "marks n ns =
     (case n of
        CallExpression cs callee targs args \<Rightarrow>
          (case callee of
             Identifier c v \<Rightarrow> stackAfterCall v args ns
           | PropertyAccessExpression c obj qd m \<Rightarrow>
               (case obj of Identifier c2 v \<Rightarrow> stackAfterCall v args ns | _ \<Rightarrow> ns)
           | _ \<Rightarrow> ns)
      | _ \<Rightarrow> ns)"

text \<open>A frame at or above position \<open>k\<close> of the stack has the name \<open>nm\<close> and is dynamic.\<close>

definition hasDynamic :: "nat \<Rightarrow> string \<Rightarrow> Namespace list \<Rightarrow> bool" where
  "hasDynamic k nm ns \<longleftrightarrow> (\<exists>f\<in>set (drop k ns). name f = nm \<and> dynamic f)"

text \<open>The declaration throws the TypeError of the destructured acquisition.\<close>

definition throwsTypeError :: "node \<Rightarrow> bool" where
  "throwsTypeError n \<longleftrightarrow> acquire n [] = None"

text \<open>The bindings of a stack: the variable and the name of every frame, without the flags.\<close>

definition bindings :: "Namespace list \<Rightarrow> (string \<times> string) list" where
  "bindings ns = map (\<lambda>f. (variable f, name f)) ns"





text \<open>
  One of the nodes of the list satisfies \<open>here\<close>, and the nodes before it satisfy
  \<open>skip\<close>.
\<close>

fun firstReached :: "(node \<Rightarrow> bool) \<Rightarrow> (node \<Rightarrow> bool) \<Rightarrow> node list \<Rightarrow> bool" where
  "firstReached here skip [] \<longleftrightarrow> False"
| "firstReached here skip (c # cs) \<longleftrightarrow> here c \<or> skip c \<and> firstReached here skip cs"

lemma firstReached_cong [fundef_cong]:
  "cs = cs' \<Longrightarrow> (\<And>c. c \<in> set cs' \<Longrightarrow> here c = here' c) \<Longrightarrow>
   (\<And>c. c \<in> set cs' \<Longrightarrow> skip c = skip' c) \<Longrightarrow>
   firstReached here skip cs = firstReached here' skip' cs'"
proof (induction cs arbitrary: cs')
  case Nil
  then show ?case by simp
next
  case (Cons c cs)
  then show ?case by auto
qed





section \<open>Sample programs\<close>

text \<open>
  Builders for the trees of small programs, with no comments, modifiers, type
  arguments or optional tokens. A \<^verbatim>\<open>const\<close> statement is a variable statement that
  holds a declaration list that holds the declaration; a function declaration is a
  function-like node that holds its name and its block; a return statement holds its
  expression; an \<^verbatim>\<open>async\<close> function declaration holds the modifier before its name;
  an arrow function holds its parameters, the token \<^verbatim>\<open>=>\<close> and its body. A token
  and a modifier are nodes without children.
\<close>

abbreviation ident :: "string \<Rightarrow> node" where
  "ident t \<equiv> Identifier [] t"

abbreviation str :: "string \<Rightarrow> node" where
  "str t \<equiv> StringLiteral [] t"

abbreviation call :: "node \<Rightarrow> node list \<Rightarrow> node" where
  "call f args \<equiv> CallExpression [] f [] args"

abbreviation await :: "node \<Rightarrow> node" where
  "await e \<equiv> AwaitExpression [] e"

abbreviation property :: "string \<Rightarrow> node \<Rightarrow> node" where
  "property n v \<equiv> PropertyAssignment [] [] (ident n) [] v"

abbreviation exprStmt :: "node \<Rightarrow> node" where
  "exprStmt e \<equiv> ExpressionStatement [] e"

abbreviation returnStmt :: "node \<Rightarrow> node" where
  "returnStmt e \<equiv> OtherNode [] False [e]"

abbreviation varDecl :: "node \<Rightarrow> node \<Rightarrow> node" where
  "varDecl nm ini \<equiv> VariableDeclaration [] nm None None (Some ini)"

abbreviation constStmt :: "node \<Rightarrow> node \<Rightarrow> node" where
  "constStmt nm ini \<equiv> OtherNode [] False [OtherNode [] False [varDecl nm ini]]"

abbreviation block :: "node list \<Rightarrow> node" where
  "block stmts \<equiv> OtherNode [] False stmts"

abbreviation functionDeclaration :: "string \<Rightarrow> node list \<Rightarrow> node" where
  "functionDeclaration f stmts \<equiv> OtherNode [] True [ident f, block stmts]"

abbreviation token :: node where
  "token \<equiv> OtherNode [] False []"

abbreviation asyncFunctionDeclaration :: "string \<Rightarrow> node list \<Rightarrow> node" where
  "asyncFunctionDeclaration f stmts \<equiv> OtherNode [] True [token, ident f, block stmts]"

abbreviation arrow :: "node list \<Rightarrow> node \<Rightarrow> node" where
  "arrow ps body \<equiv> ArrowFunction [] [] ps [token] body"

abbreviation typedParameter :: "string \<Rightarrow> node" where
  "typedParameter p \<equiv>
     Parameter [] [] (ident p) None (Some (TypeReferenceNode [] (ident ''Translator'') [])) None"

text \<open>
  Two files whose keys come out of pass 2 as \<^verbatim>\<open>b.z, b.a, a.k, a.k\<close>. The comparator
  answers \<^verbatim>\<open>-1\<close> for the two equal keys in both directions.
\<close>

definition sampleUnsorted :: "fileSystem" where
  "sampleUnsorted p =
     (if p = ''b.tsx'' then
        [functionDeclaration ''B''
          [constStmt (ident ''t'') (call (ident ''useTranslations'') [str ''b'']),
           exprStmt (call (ident ''t'') [str ''z'']),
           exprStmt (call (ident ''t'') [str ''a''])]]
      else
        [functionDeclaration ''A''
          [constStmt (ident ''t'') (call (ident ''useTranslations'') [str ''a'']),
           exprStmt (call (ident ''t'') [str ''k'']),
           exprStmt (call (ident ''t'') [str ''k''])]])"

text \<open>
  \<^verbatim>\<open>schema.ts\<close>: \<^verbatim>\<open>const schema = (t) => t('required')\<close>; every other path:
  \<^verbatim>\<open>function Form() { schema(useTranslations('Form')); }\<close>.
\<close>

definition sampleUntypedHelper :: fileSystem where
  "sampleUntypedHelper p =
     (if p = ''schema.ts'' then
        [constStmt (ident ''schema'')
           (arrow [Parameter [] [] (ident ''t'') None None None] (call (ident ''t'') [str ''required'']))]
      else
        [functionDeclaration ''Form''
           [exprStmt (call (ident ''schema'') [call (ident ''useTranslations'') [str ''Form'']])]])"

text \<open>
  \<^verbatim>\<open>schema.ts\<close>: \<^verbatim>\<open>const schema = (t: Translator) => { return t('required') }\<close>;
  every other path as before.
\<close>

definition sampleTypedHelper :: fileSystem where
  "sampleTypedHelper p =
     (if p = ''schema.ts'' then
        [constStmt (ident ''schema'')
           (arrow [typedParameter ''t'']
              (block [returnStmt (call (ident ''t'') [str ''required''])]))]
      else
        [functionDeclaration ''Form''
           [exprStmt (call (ident ''schema'') [call (ident ''useTranslations'') [str ''Form'']])]])"

text \<open>
  \<^verbatim>\<open>first.ts\<close> and \<^verbatim>\<open>second.ts\<close> both define \<^verbatim>\<open>schema\<close>, with the keys
  \<^verbatim>\<open>first\<close> and \<^verbatim>\<open>second\<close>; every other path calls it as before.
\<close>

definition sampleRedefinedHelper :: fileSystem where
  "sampleRedefinedHelper p =
     (if p = ''first.ts'' then
        [constStmt (ident ''schema'')
           (arrow [typedParameter ''t'']
              (block [returnStmt (call (ident ''t'') [str ''first''])]))]
      else if p = ''second.ts'' then
        [constStmt (ident ''schema'')
           (arrow [typedParameter ''t'']
              (block [returnStmt (call (ident ''t'') [str ''second''])]))]
      else
        [functionDeclaration ''Form''
           [exprStmt (call (ident ''schema'') [call (ident ''useTranslations'') [str ''Form'']])]])"

text \<open>
  \<^verbatim>\<open>function Page() { const t = useTranslations('NS'); const key = compute(); t(key); }\<close>
\<close>

definition sampleDynamic :: fileSystem where
  "sampleDynamic p =
     [functionDeclaration ''Page''
        [constStmt (ident ''t'') (call (ident ''useTranslations'') [str ''NS'']),
         constStmt (ident ''key'') (call (ident ''compute'') []),
         exprStmt (call (ident ''t'') [ident ''key''])]]"

text \<open>
  \<^verbatim>\<open>function Page() { if (ready) { const t = useTranslations('NS'); const key = compute(); t(key); } }\<close>
\<close>

definition sampleDynamicNested :: fileSystem where
  "sampleDynamicNested p =
     [functionDeclaration ''Page''
        [OtherNode [] False
           [ident ''ready'',
            block [constStmt (ident ''t'') (call (ident ''useTranslations'') [str ''NS'']),
                   constStmt (ident ''key'') (call (ident ''compute'') []),
                   exprStmt (call (ident ''t'') [ident ''key''])]]]]"



section \<open>Sorting\<close>

text \<open>
  For the comparator of \<^verbatim>\<open>extract\<close> the insertion sort gives a list that is sorted
  by key, although the comparator never answers 0; sorting only reorders.
\<close>

lemma compareFn_neg: "(compareFn a b < 0) = (key a \<le> key b)"
  by (auto simp: compareFn_def)

lemma set_insertSorted: "set (insertSorted cmp x xs) = insert x (set xs)"
  by (induction xs) auto

lemma sorted_insertSorted:
  "sorted (map key xs) \<Longrightarrow> sorted (map key (insertSorted compareFn x xs))"
  by (induction xs) (auto simp: compareFn_neg set_insertSorted)

lemma set_fold_insertSorted: "set (fold (insertSorted cmp) xs acc) = set xs \<union> set acc"
  by (induction xs arbitrary: acc) (simp_all add: set_insertSorted)

lemma set_arraySort: "set (arraySort cmp xs) = set xs"
  by (simp add: arraySort_def set_fold_insertSorted)

lemma sorted_fold_insertSorted:
  "sorted (map key acc) \<Longrightarrow> sorted (map key (fold (insertSorted compareFn) xs acc))"
  by (induction xs arbitrary: acc) (simp_all add: sorted_insertSorted)

lemma sorted_arraySort: "sorted (map key (arraySort compareFn xs))"
  by (simp add: arraySort_def sorted_fold_insertSorted)

lemma count_insertSorted:
  "count_list (insertSorted cmp x xs) y = count_list (x # xs) y"
  by (induction xs) auto

lemma count_fold_insertSorted:
  "count_list (fold (insertSorted cmp) xs acc) y = count_list xs y + count_list acc y"
  by (induction xs arbitrary: acc) (simp_all add: count_insertSorted)

lemma count_arraySort: "count_list (arraySort cmp xs) y = count_list xs y"
  by (simp add: arraySort_def count_fold_insertSorted)

section \<open>Frames\<close>

text \<open>
  Pushing and marking keep the frames that are on the stack; an acquisition only
  appends frames.
\<close>

lemma framesKept_refl: "framesKept ns ns"
  by (simp add: framesKept_def)

lemma framesKept_trans: "framesKept a b \<Longrightarrow> framesKept b c \<Longrightarrow> framesKept a c"
  by (auto simp: framesKept_def)

lemma framesKept_append: "framesKept ns (ns @ new)"
  by (simp add: framesKept_def nth_append)

lemma framesKept_push: "framesKept ns (pushNamespace f ns)"
  by (simp add: pushNamespace_def framesKept_append)

lemma framesKept_dynamic: "framesKept ns (setNamespaceAsDynamic nm ns)"
  by (simp add: framesKept_def setNamespaceAsDynamic_def)

lemma framesKept_take: "framesKept ns ns' \<Longrightarrow> framesKept ns (take (length ns) ns')"
  by (simp add: framesKept_def)

lemma fold_push_all:
  "fold (\<lambda>p. pushNamespace (f p)) ps ns = ns @ map f ps"
  by (induction ps arbitrary: ns) (simp_all add: pushNamespace_def)

lemma fold_push_some:
  "fold (\<lambda>p. case g p of Some x \<Rightarrow> pushNamespace (f x) | None \<Rightarrow> id) ps ns =
   ns @ map f (List.map_filter g ps)"
  by (induction ps arbitrary: ns) (simp_all add: pushNamespace_def List.map_filter_simps split: option.splits)

lemma acquireUseTranslations_appends: "\<exists>new. acquireUseTranslations nm args ns = ns @ new"
  by (simp add: acquireUseTranslations_def pushNamespace_def split: list.splits node.splits)

lemma acquireGetTranslations_object:
  "acquireGetTranslations nm (ObjectLiteralExpression cs props # rest) ns =
   ns @ map (\<lambda>property. \<lparr>name = (case namespaceProperty property of Some v \<Rightarrow> v | None \<Rightarrow> []),
                           variable = variableOf nm, dynamic = False\<rparr>) props"
proof -
  have "(\<lambda>property. case namespaceProperty property of
            Some v \<Rightarrow> pushNamespace \<lparr>name = v, variable = variableOf nm, dynamic = False\<rparr>
          | None \<Rightarrow> pushNamespace \<lparr>name = [], variable = variableOf nm, dynamic = False\<rparr>) =
        (\<lambda>p. pushNamespace \<lparr>name = (case namespaceProperty p of Some v \<Rightarrow> v | None \<Rightarrow> []),
                             variable = variableOf nm, dynamic = False\<rparr>)"
    by (auto split: option.splits)
  then show ?thesis
    by (simp add: acquireGetTranslations_def fold_push_all)
qed

lemma acquireGetTranslations_appends: "\<exists>new. acquireGetTranslations nm args ns = ns @ new"
proof (cases args)
  case Nil
  then show ?thesis by (simp add: acquireGetTranslations_def pushNamespace_def)
next
  case (Cons a rest)
  then show ?thesis
    by (cases a) (simp_all add: acquireGetTranslations_object, simp_all add: acquireGetTranslations_def pushNamespace_def)
qed

lemma acquireFromElement_appends: "\<exists>new. acquireFromElement v element ns = ns @ new"
  by (simp add: acquireFromElement_def pushNamespace_def fold_push_some split: list.splits node.splits)

lemma acquirePromiseAll_appends:
  "acquirePromiseAll nm args ns = Some ns' \<Longrightarrow> \<exists>new. ns' = ns @ new"
  using acquireFromElement_appends
  by (auto simp: acquirePromiseAll_def split: list.splits node.splits option.splits if_splits)

lemma acquire_appends:
  assumes "acquire n ns = Some ns'"
  shows "\<exists>new. ns' = ns @ new"
proof (cases n)
  case (VariableDeclaration cs nm cs_excl ty ini)
  show ?thesis
  proof (cases ini)
    case None
    with VariableDeclaration show ?thesis
      using \<open>acquire n ns = Some ns'\<close> by (simp add: acquire_def)
  next
    case (Some i)
    show ?thesis
    proof (cases i)
      case (CallExpression cs1 callee cs1_targs args)
      with Some VariableDeclaration \<open>acquire n ns = Some ns'\<close> show ?thesis
        using acquireUseTranslations_appends [of nm args ns]
        by (cases callee) (auto simp: acquire_def split: if_splits)
    next
      case (AwaitExpression cs1 awaited)
      show ?thesis
      proof (cases awaited)
        case (CallExpression cs2 callee cs2_targs args)
        obtain mid where mid: "acquirePromiseAll nm args mid = Some ns'" "\<exists>new. mid = ns @ new"
          using Some VariableDeclaration AwaitExpression CallExpression \<open>acquire n ns = Some ns'\<close>
            acquireGetTranslations_appends [of nm args ns]
          by (cases callee) (auto simp: acquire_def split: if_splits)
        then show ?thesis
          using acquirePromiseAll_appends [of nm args mid ns'] by auto
      qed (use Some VariableDeclaration AwaitExpression \<open>acquire n ns = Some ns'\<close> in
            \<open>simp_all add: acquire_def\<close>)
    qed (use Some VariableDeclaration \<open>acquire n ns = Some ns'\<close> in \<open>simp_all add: acquire_def\<close>)
  qed
qed (use \<open>acquire n ns = Some ns'\<close> in \<open>simp_all add: acquire_def\<close>)

section \<open>What one node does to the state\<close>

text \<open>
  Every step that \<^verbatim>\<open>visit\<close> takes for one node keeps the frames of the stack and
  appends to the found keys.
\<close>

lemma grows_refl: "grows s s"
  by (simp add: grows_def framesKept_refl)

lemma grows_trans: "grows a b \<Longrightarrow> grows b c \<Longrightarrow> grows a c"
  by (auto simp: grows_def intro: framesKept_trans)

lemma helperCalls_grows: "grows s (helperCalls reg path n s)"
  by (auto simp: grows_def framesKept_refl helperCalls_def helperPattern1_def helperPattern2_def
      pushKeys_def split: node.splits option.splits list.splits)

lemma inlineCalls_grows: "grows s (inlineCalls path n s)"
  by (auto simp: grows_def framesKept_refl inlineCalls_def Let_def
      split: node.splits option.splits list.splits)

lemma translatorCall_grows: "grows (snd ks) (snd (translatorCall e args ks))"
  by (auto simp: grows_def framesKept_refl framesKept_dynamic translatorCall_def
      split: node.splits option.splits list.splits)

lemma directCall_grows: "grows (snd ks) (snd (directCall n ks))"
  using translatorCall_grows
  by (auto simp: directCall_def grows_refl split: node.splits)

lemma methodCall_grows: "grows (snd ks) (snd (methodCall n ks))"
  using translatorCall_grows
  by (auto simp: methodCall_def grows_refl split: node.splits)

lemma emitKey_grows: "grows (snd ks) (emitKey path ks)"
  by (auto simp: grows_def framesKept_refl emitKey_def Let_def split: option.splits)

lemma commentKey_grows: "grows s (commentKey path c s)"
  by (auto simp: grows_def framesKept_refl commentKey_def Let_def split: option.splits)

lemma commentKeys_grows: "grows s (commentKeys path n s)"
proof -
  have "grows s (fold (commentKey path) cs s)" for cs
  proof (induction cs arbitrary: s)
    case Nil
    show ?case by (simp add: grows_refl)
  next
    case (Cons c cs)
    show ?case
      using grows_trans [OF commentKey_grows Cons.IH] by simp
  qed
  then show ?thesis by (simp add: commentKeys_def)
qed

lemma visitNode_grows:
  assumes "visitNode reg path n s = Some s1"
  shows "grows s s1"
proof -
  obtain ns where ns: "acquire n (namespaces s) = Some ns"
    and s1: "s1 = commentKeys path n (emitKey path (methodCall n (directCall n
               (None, inlineCalls path n (helperCalls reg path n (s\<lparr>namespaces := ns\<rparr>))))))"
    using assms by (auto simp: visitNode_def split: option.splits)
  define a where "a = s\<lparr>namespaces := ns\<rparr>"
  define b where "b = helperCalls reg path n a"
  define c where "c = inlineCalls path n b"
  define d where "d = directCall n (None, c)"
  define e where "e = methodCall n d"
  have "grows s a"
    using acquire_appends [OF ns] by (auto simp: a_def grows_def framesKept_append)
  moreover have "grows a b" by (simp add: b_def helperCalls_grows)
  moreover have "grows b c" by (simp add: c_def inlineCalls_grows)
  moreover have "grows c (snd d)" using directCall_grows [of "(None, c)" n] by (simp add: d_def)
  moreover have "grows (snd d) (snd e)" by (simp add: e_def methodCall_grows)
  moreover have "grows (snd e) (emitKey path e)" by (rule emitKey_grows)
  moreover have "grows (emitKey path e) s1"
    by (simp add: s1 a_def b_def c_def d_def e_def commentKeys_grows)
  ultimately show ?thesis by (blast intro: grows_trans)
qed

lemma scopeExit_grows:
  assumes "framesKept ns0 (namespaces s)"
  shows "framesKept ns0 (namespaces (scopeExit path n (length ns0) s)) \<and>
         (\<exists>ks. foundKeys (scopeExit path n (length ns0) s) = foundKeys s @ ks)"
  using assms framesKept_take [OF assms]
  by (auto simp: scopeExit_def Let_def removeNamespaces_def)

section \<open>The traversal\<close>

text \<open>
  A property of every single visit that is reflexive and transitive holds along
  \<^verbatim>\<open>ts.forEachChild\<close>. So the whole visit of a node keeps the frames that were on
  the stack and the keys that were found; every node of a file is visited, and what
  is found by the end of its visit is part of the result.
\<close>

lemma forEachChild_preserves:
  assumes refl: "\<And>t. R t t"
    and trans: "\<And>a b c. R a b \<Longrightarrow> R b c \<Longrightarrow> R a c"
    and step: "\<And>c t t'. c \<in> set cs \<Longrightarrow> cb c t = Some t' \<Longrightarrow> R t t'"
    and run: "forEachChild cb cs s = Some s'"
  shows "R s s'"
  using step run
proof (induction cs arbitrary: s)
  case Nil
  then show ?case by (simp add: refl)
next
  case (Cons c cs)
  from Cons.prems(2) obtain s1 where s1: "cb c s = Some s1" "forEachChild cb cs s1 = Some s'"
    by (auto split: option.splits)
  have "R s s1" using Cons.prems(1) [of c s s1] s1(1) by simp
  moreover have "R s1 s'"
  proof (rule Cons.IH)
    show "d \<in> set cs \<Longrightarrow> cb d t = Some t' \<Longrightarrow> R t t'" for d t t'
      using Cons.prems(1) [of d t t'] by simp
    show "forEachChild cb cs s1 = Some s'" by (rule s1(2))
  qed
  ultimately show ?case by (rule trans)
qed

lemma forEachChild_reaches:
  assumes refl: "\<And>t. R t t"
    and trans: "\<And>a b c. R a b \<Longrightarrow> R b c \<Longrightarrow> R a c"
    and step: "\<And>c t t'. c \<in> set cs \<Longrightarrow> cb c t = Some t' \<Longrightarrow> R t t'"
    and run: "forEachChild cb cs s = Some s'"
    and mem: "c \<in> set cs"
  shows "\<exists>t t'. cb c t = Some t' \<and> R s t \<and> R t' s'"
  using step run mem
proof (induction cs arbitrary: s)
  case Nil
  then show ?case by simp
next
  case (Cons x cs)
  from Cons.prems(2) obtain s1 where s1: "cb x s = Some s1" "forEachChild cb cs s1 = Some s'"
    by (auto split: option.splits)
  have xs: "R s s1" using Cons.prems(1) [of x s s1] s1(1) by simp
  have rest: "R s1 s'"
  proof (rule forEachChild_preserves [where R = R, OF _ _ _ s1(2)])
    show "R t t" for t by (rule refl)
    show "R a b \<Longrightarrow> R b c \<Longrightarrow> R a c" for a b c by (rule trans)
    show "c \<in> set cs \<Longrightarrow> cb c t = Some t' \<Longrightarrow> R t t'" for c t t'
      using Cons.prems(1) [of c t t'] by simp
  qed
  show ?case
  proof (cases "c = x")
    case True
    then show ?thesis using s1(1) rest refl by blast
  next
    case False
    then have "c \<in> set cs" using Cons.prems(3) by simp
    have "\<exists>t t'. cb c t = Some t' \<and> R s1 t \<and> R t' s'"
    proof (rule Cons.IH)
      show "d \<in> set cs \<Longrightarrow> cb d t = Some t' \<Longrightarrow> R t t'" for d t t'
        using Cons.prems(1) [of d t t'] by simp
      show "forEachChild cb cs s1 = Some s'" by (rule s1(2))
      show "c \<in> set cs" by fact
    qed
    then obtain t t' where "cb c t = Some t'" "R s1 t" "R t' s'" by auto
    then show ?thesis using xs trans by blast
  qed
qed

lemma visit_grows: "visit reg path n s = Some s' \<Longrightarrow> grows s s'"
proof (induction reg path n s arbitrary: s' rule: visit.induct)
  case (1 reg path n s)
  from "1.prems" obtain s1 s2 where s1: "visitNode reg path n s = Some s1"
    and s2: "forEachChild (visit reg path) (children n) s1 = Some s2"
    and s': "s' = scopeExit path n (length (namespaces s)) s2"
    by (auto simp: visit.simps [of reg path n s] split: option.splits)
  have a: "grows s s1" by (rule visitNode_grows [OF s1])
  have b: "grows s1 s2"
  proof (rule forEachChild_preserves [where R = grows, OF _ _ _ s2])
    show "grows t t" for t by (rule grows_refl)
    show "grows a b \<Longrightarrow> grows b c \<Longrightarrow> grows a c" for a b c by (rule grows_trans)
    show "c \<in> set (children n) \<Longrightarrow> visit reg path c t = Some t' \<Longrightarrow> grows t t'" for c t t'
      by (rule "1.IH" [OF s1])
  qed
  have c: "grows s s2" by (rule grows_trans [OF a b])
  then show ?case
    using scopeExit_grows [of "namespaces s" s2 path n] by (auto simp: s' grows_def)
qed

lemma keysKept_refl: "keysKept s s"
  by (simp add: keysKept_def)

lemma keysKept_trans: "keysKept a b \<Longrightarrow> keysKept b c \<Longrightarrow> keysKept a c"
  by (auto simp: keysKept_def)

lemma grows_keysKept: "grows s s' \<Longrightarrow> keysKept s s'"
  by (simp add: grows_def keysKept_def)

lemma keysKept_subset: "keysKept s s' \<Longrightarrow> set (foundKeys s) \<subseteq> set (foundKeys s')"
  by (auto simp: keysKept_def)

lemma visit_keysKept: "visit reg path n s = Some s' \<Longrightarrow> keysKept s s'"
  by (rule grows_keysKept [OF visit_grows])

lemma forEachChild_visit_keysKept:
  assumes "forEachChild (visit reg path) cs s = Some s'"
  shows "keysKept s s'"
proof (rule forEachChild_preserves [where R = keysKept, OF _ _ _ assms])
  show "keysKept t t" for t by (rule keysKept_refl)
  show "keysKept a b \<Longrightarrow> keysKept b c \<Longrightarrow> keysKept a c" for a b c by (rule keysKept_trans)
  show "visit reg path c t = Some t' \<Longrightarrow> keysKept t t'" for c t t' by (rule visit_keysKept)
qed

lemma forEachChild_visit_reaches:
  assumes "forEachChild (visit reg path) cs s = Some s'" and "c \<in> set cs"
  shows "\<exists>t t'. visit reg path c t = Some t' \<and> keysKept s t \<and> keysKept t' s'"
proof (rule forEachChild_reaches [where R = keysKept, OF _ _ _ assms])
  show "keysKept t t" for t by (rule keysKept_refl)
  show "keysKept a b \<Longrightarrow> keysKept b c \<Longrightarrow> keysKept a c" for a b c by (rule keysKept_trans)
  show "visit reg path c t = Some t' \<Longrightarrow> keysKept t t'" for c t t' by (rule visit_keysKept)
qed

lemma scopeExit_keysKept: "keysKept s (scopeExit path n k s)"
  by (simp add: keysKept_def scopeExit_def Let_def)

lemma visit_stages:
  assumes "visit reg path n s = Some s'"
  obtains s1 s2 where "visitNode reg path n s = Some s1"
    and "forEachChild (visit reg path) (children n) s1 = Some s2"
    and "s' = scopeExit path n (length (namespaces s)) s2"
  using assms by (auto simp: visit.simps [of reg path n s] split: option.splits)

lemma visit_reaches:
  assumes "m \<in> set (subnodes n)" and "visit reg path n s = Some s'"
  shows "\<exists>t t'. visit reg path m t = Some t' \<and> keysKept t' s'"
  using assms
proof (induction n arbitrary: s s' rule: subnodes.induct)
  case (1 n)
  from "1.prems"(2) obtain s1 s2 where s1: "visitNode reg path n s = Some s1"
    and s2: "forEachChild (visit reg path) (children n) s1 = Some s2"
    and s': "s' = scopeExit path n (length (namespaces s)) s2"
    by (rule visit_stages)
  from "1.prems"(1) consider "m = n" | c where "c \<in> set (children n)" "m \<in> set (subnodes c)"
    by (subst (asm) subnodes.simps) auto
  then show ?case
  proof cases
    case 1
    then show ?thesis using "1.prems"(2) keysKept_refl by blast
  next
    case 2
    from forEachChild_visit_reaches [OF s2 2(1)]
    obtain u u' where u: "visit reg path c u = Some u'" "keysKept u' s2" by blast
    from "1.IH" [OF 2(1) 2(2) u(1)]
    obtain t t' where t: "visit reg path m t = Some t'" "keysKept t' u'" by blast
    have "keysKept t' s'"
      using t(2) u(2) scopeExit_keysKept [of s2 path n "length (namespaces s)"]
      by (auto simp: s' intro: keysKept_trans)
    then show ?thesis using t(1) by blast
  qed
qed

lemma flatMapKeys_member:
  assumes "flatMapKeys f ps = Some every" and "p \<in> set ps"
  shows "\<exists>ks. f p = Some ks \<and> set ks \<subseteq> set every"
  using assms
proof (induction ps arbitrary: every)
  case Nil
  then show ?case by simp
next
  case (Cons q ps)
  from Cons.prems(1) obtain ks others where ks: "f q = Some ks" "flatMapKeys f ps = Some others"
    "every = ks @ others"
    by (auto split: option.splits)
  show ?case
  proof (cases "p = q")
    case True
    then show ?thesis using ks by auto
  next
    case False
    then have "p \<in> set ps" using Cons.prems(2) by simp
    from Cons.IH [OF ks(2) this] show ?thesis using ks(3) by auto
  qed
qed

lemma extractKeys_visits:
  assumes "extractKeys fs filesPaths = Some rs" and "path \<in> set filesPaths"
    and "c \<in> set (fs path)" and "m \<in> set (subnodes c)"
  shows "\<exists>t t'. visit (registry fs filesPaths) path m t = Some t' \<and>
                 set (foundKeys t') \<subseteq> set rs"
proof -
  define reg where "reg = registry fs filesPaths"
  from assms(1) obtain every where every: "flatMapKeys (getKeys reg fs) filesPaths = Some every"
    and rs: "rs = arraySort compareFn every"
    by (auto simp: extractKeys_def reg_def split: option.splits)
  from flatMapKeys_member [OF every assms(2)]
  obtain ks where ks: "getKeys reg fs path = Some ks" "set ks \<subseteq> set every" by blast
  from ks(1) obtain final where final:
    "forEachChild (visit reg path) (fs path) \<lparr>namespaces = [], foundKeys = []\<rparr> = Some final"
    "ks = foundKeys final"
    by (auto simp: getKeys_def split: option.splits)
  from forEachChild_visit_reaches [OF final(1) assms(3)]
  obtain u u' where u: "visit reg path c u = Some u'" "keysKept u' final" by blast
  from visit_reaches [OF assms(4) u(1)]
  obtain t t' where t: "visit reg path m t = Some t'" "keysKept t' u'" by blast
  have "set (foundKeys t') \<subseteq> set rs"
    using keysKept_subset [OF t(2)] keysKept_subset [OF u(2)] ks(2) final(2)
    by (auto simp: rs set_arraySort)
  then show ?thesis using t(1) by (auto simp: reg_def)
qed

lemma visitNode_stages:
  assumes "visitNode reg path n s = Some s1"
  obtains ns where "acquire n (namespaces s) = Some ns"
    and "keysKept (helperCalls reg path n (s\<lparr>namespaces := ns\<rparr>)) s1"
    and "keysKept (inlineCalls path n (helperCalls reg path n (s\<lparr>namespaces := ns\<rparr>))) s1"
proof -
  obtain ns where ns: "acquire n (namespaces s) = Some ns"
    and s1: "s1 = commentKeys path n (emitKey path (methodCall n (directCall n
               (None, inlineCalls path n (helperCalls reg path n (s\<lparr>namespaces := ns\<rparr>))))))"
    using assms by (auto simp: visitNode_def split: option.splits)
  define b where "b = helperCalls reg path n (s\<lparr>namespaces := ns\<rparr>)"
  define c where "c = inlineCalls path n b"
  define d where "d = directCall n (None, c)"
  define e where "e = methodCall n d"
  have bc: "keysKept b c" by (simp add: c_def grows_keysKept inlineCalls_grows)
  have "keysKept c (snd d)"
    using directCall_grows [of "(None, c)" n] by (simp add: d_def grows_keysKept)
  moreover have "keysKept (snd d) (snd e)" by (simp add: e_def grows_keysKept methodCall_grows)
  moreover have "keysKept (snd e) (emitKey path e)" by (simp add: grows_keysKept emitKey_grows)
  moreover have "keysKept (emitKey path e) s1"
    by (simp add: s1 b_def c_def d_def e_def grows_keysKept commentKeys_grows)
  ultimately have cs1: "keysKept c s1" by (blast intro: keysKept_trans)
  have "keysKept b s1" by (rule keysKept_trans [OF bc cs1])
  with cs1 ns show ?thesis using that by (simp add: b_def c_def)
qed

lemma visit_node_keys:
  assumes "visit reg path n s = Some s'"
  obtains ns where "acquire n (namespaces s) = Some ns"
    and "set (foundKeys (helperCalls reg path n (s\<lparr>namespaces := ns\<rparr>))) \<subseteq> set (foundKeys s')"
    and "set (foundKeys (inlineCalls path n (helperCalls reg path n (s\<lparr>namespaces := ns\<rparr>))))
           \<subseteq> set (foundKeys s')"
proof -
  from assms obtain s1 s2 where s1: "visitNode reg path n s = Some s1"
    and s2: "forEachChild (visit reg path) (children n) s1 = Some s2"
    and s': "s' = scopeExit path n (length (namespaces s)) s2"
    by (rule visit_stages)
  have after: "keysKept s1 s'"
    using forEachChild_visit_keysKept [OF s2] scopeExit_keysKept [of s2 path n "length (namespaces s)"]
    by (auto simp: s' intro: keysKept_trans)
  from s1 obtain ns where ns: "acquire n (namespaces s) = Some ns"
    and h: "keysKept (helperCalls reg path n (s\<lparr>namespaces := ns\<rparr>)) s1"
    and i: "keysKept (inlineCalls path n (helperCalls reg path n (s\<lparr>namespaces := ns\<rparr>))) s1"
    by (rule visitNode_stages)
  show ?thesis
    using that [OF ns] keysKept_subset [OF keysKept_trans [OF h after]]
      keysKept_subset [OF keysKept_trans [OF i after]] by blast
qed

section \<open>The frames of an acquisition\<close>

text \<open>The frames of the destructured form, and the index that \<^verbatim>\<open>findIndex\<close> answers.\<close>

lemma acquireFromElement_object:
  "acquireFromElement v (CallExpression cs g cs_targs (ObjectLiteralExpression c props # rest)) ns =
   ns @ map (\<lambda>x. \<lparr>name = x, variable = v, dynamic = False\<rparr>) (List.map_filter namespaceProperty props)"
  by (simp add: acquireFromElement_def fold_push_some)

lemma findIndex_Some: "findIndex p xs = Some i \<Longrightarrow> i < length xs \<and> p (xs ! i)"
proof (induction xs arbitrary: i)
  case Nil
  then show ?case by simp
next
  case (Cons x xs)
  then show ?case by (auto split: if_splits option.splits)
qed

section \<open>The registry of helper functions\<close>

text \<open>
  Pass 1 only appends to the registry, and every declaration that yields a record
  with a key is in the registry.
\<close>

lemma registerFunction_appends: "registerFunction n reg = reg @ registerFunction n []"
  by (simp add: registerFunction_def split: option.splits)

lemma fold_appends:
  assumes "\<And>x acc. x \<in> set xs \<Longrightarrow> f x acc = acc @ f x []"
  shows "fold f xs acc = acc @ fold f xs ([] :: 'b list)"
  using assms
proof (induction xs arbitrary: acc)
  case Nil
  show ?case by simp
next
  case (Cons x xs)
  have step: "f x acc = acc @ f x []" for acc
    by (rule Cons.prems) simp
  have rest: "fold f xs acc = acc @ fold f xs []" for acc
  proof (rule Cons.IH)
    show "y \<in> set xs \<Longrightarrow> f y a = a @ f y []" for y a
      by (rule Cons.prems) simp
  qed
  show ?case
    using rest [of "f x acc"] rest [of "f x []"] step [of acc] by simp
qed

lemma collectVisit_appends: "collectVisit n reg = reg @ collectVisit n []"
proof (induction n reg rule: collectVisit.induct)
  case (1 n reg)
  have kids: "fold collectVisit (children n) acc = acc @ fold collectVisit (children n) []" for acc
    by (rule fold_appends) (use "1.IH" in blast)
  show ?case
    using kids [of "registerFunction n reg"] kids [of "registerFunction n []"]
      registerFunction_appends [of n reg]
    by (simp add: collectVisit.simps [of n])
qed

lemma fold_collectVisit_appends: "fold collectVisit cs reg = reg @ fold collectVisit cs []"
  by (rule fold_appends) (rule collectVisit_appends)

lemma collectFunctionsWithTParam_appends:
  "collectFunctionsWithTParam fs path reg = reg @ collectFunctionsWithTParam fs path []"
  by (simp add: collectFunctionsWithTParam_def fold_collectVisit_appends [of _ reg])

text \<open>The registry grows by appending, file after file.\<close>

lemma registry_snoc:
  "registry fs (filesPaths @ [path]) = registry fs filesPaths @ collectFunctionsWithTParam fs path []"
  by (simp add: registry_def collectFunctionsWithTParam_appends [of fs path "fold _ _ _"])

lemma collectVisit_registers:
  assumes "m \<in> set (subnodes n)" and "functionTracker m = Some tracker" and "keysUsed tracker \<noteq> []"
  shows "tracker \<in> set (collectVisit n reg)"
  using assms(1)
proof (induction n arbitrary: reg rule: subnodes.induct)
  case (1 n)
  from "1.prems" consider "m = n" | c where "c \<in> set (children n)" "m \<in> set (subnodes c)"
    by (subst (asm) subnodes.simps) auto
  then show ?case
  proof cases
    case 1
    then have "tracker \<in> set (registerFunction n reg)"
      using assms(2,3) by (simp add: registerFunction_def)
    then show ?thesis
      using fold_collectVisit_appends [of "children n" "registerFunction n reg"]
      by (simp add: collectVisit.simps [of n])
  next
    case 2
    have inner: "tracker \<in> set (fold collectVisit cs acc)" if "c \<in> set cs" for cs acc
      using that
    proof (induction cs arbitrary: acc)
      case Nil
      then show ?case by simp
    next
      case (Cons x xs)
      show ?case
      proof (cases "c = x")
        case True
        have "tracker \<in> set (collectVisit c acc)"
          using "1.IH" [OF 2(1) 2(2)] by simp
        then show ?thesis
          using True fold_collectVisit_appends [of xs "collectVisit x acc"] by simp
      next
        case False
        then show ?thesis using Cons by simp
      qed
    qed
    from inner [where cs = "children n" and acc = "registerFunction n reg", OF 2(1)]
    show ?thesis
      by (simp add: collectVisit.simps [of n])
  qed
qed

lemma registry_registers:
  assumes "path \<in> set filesPaths" and "c \<in> set (fs path)" and "m \<in> set (subnodes c)"
    and "functionTracker m = Some tracker" and "keysUsed tracker \<noteq> []"
  shows "tracker \<in> set (registry fs filesPaths)"
proof -
  have infile: "tracker \<in> set (fold collectVisit cs acc)" if "c \<in> set cs" for cs acc
    using that
  proof (induction cs arbitrary: acc)
    case Nil
    then show ?case by simp
  next
    case (Cons x xs)
    show ?case
    proof (cases "c = x")
      case True
      have "tracker \<in> set (collectVisit c acc)"
        by (rule collectVisit_registers [OF assms(3,4,5)])
      then show ?thesis
        using True fold_collectVisit_appends [of xs "collectVisit x acc"] by simp
    next
      case False
      then show ?thesis using Cons by simp
    qed
  qed
  have "tracker \<in> set (fold (collectFunctionsWithTParam fs) ps acc)" if "path \<in> set ps" for ps acc
    using that
  proof (induction ps arbitrary: acc)
    case Nil
    then show ?case by simp
  next
    case (Cons p ps)
    have keep: "set a \<subseteq> set (fold (collectFunctionsWithTParam fs) ps a)" for a
    proof -
      have "fold (collectFunctionsWithTParam fs) ps a =
            a @ fold (collectFunctionsWithTParam fs) ps []"
        by (rule fold_appends) (rule collectFunctionsWithTParam_appends)
      then have "set (fold (collectFunctionsWithTParam fs) ps a) =
                 set a \<union> set (fold (collectFunctionsWithTParam fs) ps [])"
        by (metis set_append)
      then show ?thesis by blast
    qed
    show ?case
    proof (cases "path = p")
      case True
      have "tracker \<in> set (collectFunctionsWithTParam fs p acc)"
        using infile [OF assms(2), of acc] True by (simp add: collectFunctionsWithTParam_def)
      then show ?thesis using keep by auto
    next
      case False
      then show ?thesis using Cons by simp
    qed
  qed
  from this [OF assms(1)] show ?thesis by (simp add: registry_def)
qed

section \<open>Lookup in the registry and in the stack\<close>

text \<open>
  \<^verbatim>\<open>find\<close> answers the first match; on the reversed stack this is the frame that
  was pushed last.
\<close>

lemma find_skips: "\<forall>x\<in>set xs. \<not> P x \<Longrightarrow> find P (xs @ ys) = find P ys"
  by (induction xs) simp_all


lemma resolve_none:
  "(getCurrentNamespaceForIdentifier v ns = None) = (\<forall>f\<in>set ns. variable f \<noteq> v)"
  by (auto simp: getCurrentNamespaceForIdentifier_def find_None_iff)

section \<open>The stack after a translator call\<close>

text \<open>The stack that a call through a translator variable leaves.\<close>

lemma translatorCall_stack:
  "namespaces (snd (translatorCall v args ks)) = stackAfterCall v args (namespaces (snd ks))"
proof (cases "getCurrentNamespaceForIdentifier v (namespaces (snd ks))")
  case None
  then show ?thesis by (simp add: translatorCall_def stackAfterCall_def)
next
  case (Some frame)
  show ?thesis
  proof (cases args)
    case Nil
    with Some show ?thesis by (simp add: translatorCall_def stackAfterCall_def)
  next
    case (Cons a rest)
    with Some show ?thesis
      by (cases a) (simp_all add: translatorCall_def stackAfterCall_def)
  qed
qed

lemma translatorCall_key_dynamic:
  "isIdentifier a \<or> isTemplateExpression a \<Longrightarrow> fst (translatorCall v (a # args) ks) = fst ks"
  by (cases a) (simp_all add: translatorCall_def split: option.splits)

lemma resolve_nonempty:
  "getCurrentNamespaceForIdentifier v ns = Some frame \<Longrightarrow> getCurrentNamespaces 1 ns \<noteq> None"
  by (cases ns) (simp_all add: getCurrentNamespaceForIdentifier_def getCurrentNamespaces_def)

lemma framesKept_fields:
  assumes "framesKept ns ns'"
  shows "length ns \<le> length ns' \<and>
         map name (take (length ns) ns') = map name ns \<and>
         map variable (take (length ns) ns') = map variable ns"
proof -
  from assms have len: "length ns \<le> length ns'"
    and same: "\<And>i. i < length ns \<Longrightarrow>
                 name (ns' ! i) = name (ns ! i) \<and> variable (ns' ! i) = variable (ns ! i)"
    by (auto simp: framesKept_def)
  have "map name (take (length ns) ns') = map name ns"
    by (rule nth_equalityI) (use len same in auto)
  moreover have "map variable (take (length ns) ns') = map variable ns"
    by (rule nth_equalityI) (use len same in auto)
  ultimately show ?thesis using len by simp
qed

section \<open>The stack along the traversal\<close>

text \<open>
  Only the acquisition, the two searches for translator calls and the scope exit
  change the stack. This gives the stack after the visit of the statements of small
  programs (calls without type arguments and question-dot token, declarations
  without exclamation token and type), whatever the registry and the comments are.
\<close>

lemma helperCalls_stack: "namespaces (helperCalls reg path n s) = namespaces s"
  by (simp add: helperCalls_def helperPattern1_def helperPattern2_def
      split: node.splits option.splits list.splits)

lemma inlineCalls_stack: "namespaces (inlineCalls path n s) = namespaces s"
  by (simp add: inlineCalls_def Let_def split: node.splits option.splits list.splits)

lemma emitKey_stack: "namespaces (emitKey path ks) = namespaces (snd ks)"
  by (simp add: emitKey_def Let_def split: option.splits)

lemma commentKey_stack: "namespaces (commentKey path c s) = namespaces s"
  by (simp add: commentKey_def Let_def split: option.splits)

lemma commentKeys_stack: "namespaces (commentKeys path n s) = namespaces s"
proof -
  have "namespaces (fold (commentKey path) cs s) = namespaces s" for cs
    by (induction cs arbitrary: s) (simp_all add: commentKey_stack)
  then show ?thesis by (simp add: commentKeys_def)
qed

lemma stackAfterCall_Nil: "stackAfterCall v args [] = []"
  by (simp add: stackAfterCall_def getCurrentNamespaceForIdentifier_def)

lemma searches_stack: "namespaces (snd (methodCall n (directCall n (k, s)))) = marks n (namespaces s)"
proof (cases "namespaces s = []")
  case True
  then have "marks n (namespaces s) = []"
    by (simp add: marks_def stackAfterCall_Nil split: node.splits)
  then show ?thesis
    using True by (simp add: methodCall_def directCall_def getCurrentNamespaces_def)
next
  case False
  then have guard: "getCurrentNamespaces 1 (namespaces s) \<noteq> None"
    by (simp add: getCurrentNamespaces_def)
  show ?thesis
  proof (cases n)
    case (CallExpression cs callee cs_targs args)
    show ?thesis
    proof (cases callee)
      case (Identifier c v)
      have "getCurrentNamespaces 1 (stackAfterCall v args (namespaces s)) \<noteq> None"
        using False
        by (simp add: getCurrentNamespaces_def stackAfterCall_def setNamespaceAsDynamic_def
            split: option.splits list.splits)
      then show ?thesis
        using guard CallExpression Identifier
        by (simp add: methodCall_def directCall_def marks_def translatorCall_stack)
    next
      case (PropertyAccessExpression c obj c_qdot m)
      then show ?thesis
        using guard CallExpression
        by (cases obj) (simp_all add: methodCall_def directCall_def marks_def translatorCall_stack)
    qed (use guard CallExpression in \<open>simp_all add: methodCall_def directCall_def marks_def\<close>)
  qed (use guard in \<open>simp_all add: methodCall_def directCall_def marks_def\<close>)
qed

lemma visitNode_stack:
  assumes "visitNode reg path n s = Some s1"
  obtains ns where "acquire n (namespaces s) = Some ns" and "namespaces s1 = marks n ns"
proof -
  obtain ns where ns: "acquire n (namespaces s) = Some ns"
    and s1: "s1 = commentKeys path n (emitKey path (methodCall n (directCall n
               (None, inlineCalls path n (helperCalls reg path n (s\<lparr>namespaces := ns\<rparr>))))))"
    using assms by (auto simp: visitNode_def split: option.splits)
  have "namespaces s1 = marks n ns"
    by (simp add: s1 commentKeys_stack emitKey_stack searches_stack inlineCalls_stack
        helperCalls_stack)
  with ns show ?thesis by (rule that)
qed

lemma visit_stack:
  assumes "visit reg path n s = Some s'"
  obtains ns s1 s2 where "acquire n (namespaces s) = Some ns"
    and "namespaces s1 = marks n ns"
    and "forEachChild (visit reg path) (children n) s1 = Some s2"
    and "s' = scopeExit path n (length (namespaces s)) s2"
proof -
  from assms obtain s1 s2 where s1: "visitNode reg path n s = Some s1"
    and s2: "forEachChild (visit reg path) (children n) s1 = Some s2"
    and s': "s' = scopeExit path n (length (namespaces s)) s2"
    by (rule visit_stages)
  from s1 obtain ns where "acquire n (namespaces s) = Some ns" "namespaces s1 = marks n ns"
    by (rule visitNode_stack)
  then show ?thesis using s2 s' by (rule that)
qed

lemma visit_leaf_stack:
  assumes "visit reg path n s = Some s'" and "isIdentifier n \<or> isStringLiteral n"
  shows "namespaces s' = namespaces s"
proof -
  from assms(1) obtain ns s1 s2 where a: "acquire n (namespaces s) = Some ns"
    and m: "namespaces s1 = marks n ns"
    and k: "forEachChild (visit reg path) (children n) s1 = Some s2"
    and e: "s' = scopeExit path n (length (namespaces s)) s2"
    by (rule visit_stack)
  from assms(2) show ?thesis
    using a m k e by (cases n) (simp_all add: acquire_def marks_def scopeExit_def)
qed

lemma forEachChild_leaves_stack:
  assumes "forEachChild (visit reg path) cs s = Some s'"
    and "\<forall>a\<in>set cs. isIdentifier a \<or> isStringLiteral a"
  shows "namespaces s' = namespaces s"
proof (rule forEachChild_preserves
    [where R = "\<lambda>a b. namespaces b = namespaces a" and cs = cs and cb = "visit reg path", OF _ _ _ assms(1)])
  show "namespaces t = namespaces t" for t by simp
  show "namespaces b = namespaces a \<Longrightarrow> namespaces c = namespaces b \<Longrightarrow> namespaces c = namespaces a"
    for a b c :: state by simp
  show "c \<in> set cs \<Longrightarrow> visit reg path c t = Some t' \<Longrightarrow> namespaces t' = namespaces t" for c t t'
    using assms(2) visit_leaf_stack by blast
qed

lemma visit_call_stack:
  assumes "visit reg path (CallExpression c (Identifier c1 f) [] args) s = Some s'"
    and "\<forall>a\<in>set args. isIdentifier a \<or> isStringLiteral a"
  shows "namespaces s' = stackAfterCall f args (namespaces s)"
proof -
  let ?n = "CallExpression c (Identifier c1 f) [] args"
  from assms(1) obtain ns s1 s2 where a: "acquire ?n (namespaces s) = Some ns"
    and m: "namespaces s1 = marks ?n ns"
    and k: "forEachChild (visit reg path) (children ?n) s1 = Some s2"
    and e: "s' = scopeExit path ?n (length (namespaces s)) s2"
    by (rule visit_stack)
  have "namespaces s2 = namespaces s1"
    by (rule forEachChild_leaves_stack [OF k]) (use assms(2) in simp)
  then show ?thesis
    using a m e by (simp add: acquire_def marks_def scopeExit_def)
qed

lemma visit_declaration_stack:
  assumes "visit reg path
             (VariableDeclaration c (Identifier c1 v) None None (Some (CallExpression c2 (Identifier c3 f) [] args)))
             s = Some s'"
    and "\<forall>a\<in>set args. isIdentifier a \<or> isStringLiteral a"
  shows "namespaces s' = stackAfterCall f args
           (if f = USE_TRANSLATIONS then acquireUseTranslations (Identifier c1 v) args (namespaces s)
            else namespaces s)"
proof -
  let ?n = "VariableDeclaration c (Identifier c1 v) None None (Some (CallExpression c2 (Identifier c3 f) [] args))"
  from assms(1) obtain ns s1 s2 where a: "acquire ?n (namespaces s) = Some ns"
    and m: "namespaces s1 = marks ?n ns"
    and k: "forEachChild (visit reg path) (children ?n) s1 = Some s2"
    and e: "s' = scopeExit path ?n (length (namespaces s)) s2"
    by (rule visit_stack)
  from k obtain t where t: "visit reg path (Identifier c1 v) s1 = Some t"
    and call: "visit reg path (CallExpression c2 (Identifier c3 f) [] args) t = Some s2"
    by (auto split: option.splits)
  have "namespaces t = namespaces s1"
    by (rule visit_leaf_stack [OF t]) simp
  moreover have "namespaces s2 = stackAfterCall f args (namespaces t)"
    by (rule visit_call_stack [OF call assms(2)])
  ultimately show ?thesis
    using a m e by (simp add: acquire_def marks_def scopeExit_def)
qed

lemma visit_wrapper_stack:
  assumes "visit reg path (OtherNode c False kids) s = Some s'"
  obtains s1 where "namespaces s1 = namespaces s"
    and "forEachChild (visit reg path) kids s1 = Some s'"
proof -
  let ?n = "OtherNode c False kids"
  from assms(1) obtain ns s1 s2 where a: "acquire ?n (namespaces s) = Some ns"
    and m: "namespaces s1 = marks ?n ns"
    and k: "forEachChild (visit reg path) (children ?n) s1 = Some s2"
    and e: "s' = scopeExit path ?n (length (namespaces s)) s2"
    by (rule visit_stack)
  have "namespaces s1 = namespaces s" using a m by (simp add: acquire_def marks_def)
  moreover have "forEachChild (visit reg path) kids s1 = Some s'"
    using k e by (simp add: scopeExit_def)
  ultimately show ?thesis by (rule that)
qed

lemma visit_statement_stack:
  assumes "visit reg path (ExpressionStatement c e) s = Some s'"
  obtains s1 where "namespaces s1 = namespaces s" and "visit reg path e s1 = Some s'"
proof -
  let ?n = "ExpressionStatement c e"
  from assms(1) obtain ns s1 s2 where a: "acquire ?n (namespaces s) = Some ns"
    and m: "namespaces s1 = marks ?n ns"
    and k: "forEachChild (visit reg path) (children ?n) s1 = Some s2"
    and e: "s' = scopeExit path ?n (length (namespaces s)) s2"
    by (rule visit_stack)
  have "namespaces s1 = namespaces s" using a m by (simp add: acquire_def marks_def)
  moreover have "visit reg path e s1 = Some s'"
    using k e by (auto simp: scopeExit_def split: option.splits)
  ultimately show ?thesis by (rule that)
qed

lemma visit_const_stack:
  assumes "visit reg path
     (OtherNode a1 False [OtherNode a2 False
        [VariableDeclaration a3 (Identifier a4 v) None None (Some (CallExpression a5 (Identifier a6 f) [] args))]])
     s = Some s'"
    and "\<forall>a\<in>set args. isIdentifier a \<or> isStringLiteral a"
  shows "namespaces s' = stackAfterCall f args
           (if f = USE_TRANSLATIONS then acquireUseTranslations (Identifier a4 v) args (namespaces s)
            else namespaces s)"
proof -
  from assms(1) obtain s1 where s1: "namespaces s1 = namespaces s"
    and k1: "forEachChild (visit reg path) [OtherNode a2 False
        [VariableDeclaration a3 (Identifier a4 v) None None (Some (CallExpression a5 (Identifier a6 f) [] args))]]
        s1 = Some s'"
    by (rule visit_wrapper_stack)
  from k1 have "visit reg path (OtherNode a2 False
        [VariableDeclaration a3 (Identifier a4 v) None None (Some (CallExpression a5 (Identifier a6 f) [] args))])
        s1 = Some s'"
    by (auto split: option.splits)
  then obtain s2 where s2: "namespaces s2 = namespaces s1"
    and k2: "forEachChild (visit reg path)
        [VariableDeclaration a3 (Identifier a4 v) None None (Some (CallExpression a5 (Identifier a6 f) [] args))]
        s2 = Some s'"
    by (rule visit_wrapper_stack)
  from k2 have "visit reg path
        (VariableDeclaration a3 (Identifier a4 v) None None (Some (CallExpression a5 (Identifier a6 f) [] args)))
        s2 = Some s'"
    by (auto split: option.splits)
  from visit_declaration_stack [OF this assms(2)] show ?thesis
    by (simp add: s1 s2)
qed

section \<open>The placeholder of a dynamic namespace\<close>

text \<open>
  The scope exit of a function-like node reports a dynamic frame that was pushed
  below the node.
\<close>

lemma in_set_drop_nth: "x \<in> set (drop k xs) \<longleftrightarrow> (\<exists>i. k \<le> i \<and> i < length xs \<and> xs ! i = x)"
proof
  assume "x \<in> set (drop k xs)"
  then obtain j where j: "j < length (drop k xs)" "drop k xs ! j = x"
    by (auto simp: in_set_conv_nth)
  then have "k \<le> k + j \<and> k + j < length xs \<and> xs ! (k + j) = x"
    by auto
  then show "\<exists>i. k \<le> i \<and> i < length xs \<and> xs ! i = x" by blast
next
  assume "\<exists>i. k \<le> i \<and> i < length xs \<and> xs ! i = x"
  then obtain i where i: "k \<le> i" "i < length xs" "xs ! i = x" by blast
  then have "i - k < length (drop k xs)" "drop k xs ! (i - k) = x"
    by auto
  then show "x \<in> set (drop k xs)"
    by (metis nth_mem)
qed

lemma hasDynamic_nth:
  "hasDynamic k nm ns \<longleftrightarrow> (\<exists>i. k \<le> i \<and> i < length ns \<and> name (ns ! i) = nm \<and> dynamic (ns ! i))"
proof
  assume "hasDynamic k nm ns"
  then obtain f where "f \<in> set (drop k ns)" "name f = nm" "dynamic f"
    by (auto simp: hasDynamic_def)
  then show "\<exists>i. k \<le> i \<and> i < length ns \<and> name (ns ! i) = nm \<and> dynamic (ns ! i)"
    by (auto simp: in_set_drop_nth)
next
  assume "\<exists>i. k \<le> i \<and> i < length ns \<and> name (ns ! i) = nm \<and> dynamic (ns ! i)"
  then obtain i where i: "k \<le> i" "i < length ns" "name (ns ! i) = nm" "dynamic (ns ! i)"
    by blast
  then have "ns ! i \<in> set (drop k ns)"
    unfolding in_set_drop_nth by blast
  with i(3,4) show "hasDynamic k nm ns"
    unfolding hasDynamic_def by blast
qed

lemma hasDynamic_lower: "hasDynamic k nm ns \<Longrightarrow> j \<le> k \<Longrightarrow> hasDynamic j nm ns"
  by (auto simp: hasDynamic_nth intro: order_trans)

lemma hasDynamic_kept: "hasDynamic k nm ns \<Longrightarrow> framesKept ns ns' \<Longrightarrow> hasDynamic k nm ns'"
  unfolding hasDynamic_nth framesKept_def
  by (metis less_le_trans)

lemma scopeExit_emits:
  assumes "isFunctionLike n" and "hasDynamic k nm (namespaces s2)"
  shows "\<lparr>key = nm, meta_file = path, meta_namespace = Some nm, meta_dynamic = True\<rparr>
         \<in> set (drop (length (foundKeys s2)) (foundKeys (scopeExit path n k s2)))"
proof -
  from assms(2) obtain f where f: "f \<in> set (drop k (namespaces s2))" "name f = nm" "dynamic f"
    by (auto simp: hasDynamic_def)
  then have longer: "k < length (namespaces s2)"
    by (cases "k < length (namespaces s2)") simp_all
  then have cur: "getCurrentNamespaces (length (namespaces s2) - k) (namespaces s2)
                  = Some (drop k (namespaces s2))"
    by (auto simp: getCurrentNamespaces_def)
  have "\<lparr>key = name f, meta_file = path, meta_namespace = Some (name f), meta_dynamic = True\<rparr>
        \<in> (\<lambda>namespace. \<lparr>key = name namespace, meta_file = path,
                          meta_namespace = Some (name namespace), meta_dynamic = True\<rparr>)
          ` set (filter dynamic (drop k (namespaces s2)))"
    using f(1,3) by (intro imageI) simp
  then show ?thesis
    using assms(1) longer cur f(2) by (simp add: scopeExit_def Let_def)
qed

lemma forEachChild_append:
  "forEachChild cb (xs @ ys) s =
     (case forEachChild cb xs s of None \<Rightarrow> None | Some t \<Rightarrow> forEachChild cb ys t)"
  by (induction xs arbitrary: s) (simp_all split: option.splits)

lemma forEachChild_visit_grows:
  assumes "forEachChild (visit reg path) cs s = Some s'"
  shows "grows s s'"
proof (rule forEachChild_preserves [where R = grows, OF _ _ _ assms])
  show "grows t t" for t by (rule grows_refl)
  show "grows a b \<Longrightarrow> grows b c \<Longrightarrow> grows a c" for a b c by (rule grows_trans)
  show "visit reg path c t = Some t' \<Longrightarrow> grows t t'" for c t t' by (rule visit_grows)
qed

lemma grows_frames: "grows s s' \<Longrightarrow> framesKept (namespaces s) (namespaces s')"
  by (simp add: grows_def)

text \<open>
  The three statements of claim C5, in a statement list: after them the frame of
  \<^verbatim>\<open>t\<close> is on the stack, above everything that was there before, and is dynamic.
\<close>

lemma dynamic_statements_stack:
  assumes run: "forEachChild (visit reg path)
       ([OtherNode a1 False [OtherNode a2 False
           [VariableDeclaration a3 (Identifier a4 ''t'') None None
              (Some (CallExpression a5 (Identifier a6 ''useTranslations'') [] [StringLiteral a7 NS]))]],
         OtherNode b1 False [OtherNode b2 False
           [VariableDeclaration b3 (Identifier b4 ''key'') None None
              (Some (CallExpression b5 (Identifier b6 ''compute'') [] []))]],
         ExpressionStatement e1 (CallExpression e2 (Identifier e3 ''t'') [] [Identifier e4 ''key''])]
        @ following) s = Some s'"
  shows "hasDynamic (length (namespaces s)) NS (namespaces s')"
proof -
  let ?declT = "OtherNode a1 False [OtherNode a2 False
           [VariableDeclaration a3 (Identifier a4 ''t'') None None
              (Some (CallExpression a5 (Identifier a6 ''useTranslations'') [] [StringLiteral a7 NS]))]]"
  let ?declKey = "OtherNode b1 False [OtherNode b2 False
           [VariableDeclaration b3 (Identifier b4 ''key'') None None
              (Some (CallExpression b5 (Identifier b6 ''compute'') [] []))]]"
  let ?call = "CallExpression e2 (Identifier e3 ''t'') [] [Identifier e4 ''key'']"
  let ?frame = "\<lparr>name = NS, variable = ''t'', dynamic = False\<rparr>"
  from run obtain m1 m2 m3 where m1: "visit reg path ?declT s = Some m1"
    and m2: "visit reg path ?declKey m1 = Some m2"
    and m3: "visit reg path (ExpressionStatement e1 ?call) m2 = Some m3"
    and rest: "forEachChild (visit reg path) following m3 = Some s'"
    by (auto split: option.splits)
  have n1: "namespaces m1 = namespaces s @ [?frame]"
    using visit_const_stack [OF m1]
    by (simp add: USE_TRANSLATIONS_def acquireUseTranslations_def pushNamespace_def variableOf_def
        stackAfterCall_def split: option.splits)
  have n2: "namespaces m2 = namespaces m1"
    using visit_const_stack [OF m2]
    by (simp add: USE_TRANSLATIONS_def stackAfterCall_def split: option.splits)
  from m3 obtain m2' where m2': "namespaces m2' = namespaces m2"
    and call: "visit reg path ?call m2' = Some m3"
    by (rule visit_statement_stack)
  have "getCurrentNamespaceForIdentifier ''t'' (namespaces s @ [?frame]) = Some ?frame"
    by (simp add: getCurrentNamespaceForIdentifier_def)
  then have n3: "namespaces m3 = setNamespaceAsDynamic NS (namespaces s @ [?frame])"
    using visit_call_stack [OF call] by (simp add: m2' n2 n1 stackAfterCall_def)
  have "hasDynamic (length (namespaces s)) NS (namespaces m3)"
    by (simp add: n3 hasDynamic_def setNamespaceAsDynamic_def)
  then show ?thesis
    by (rule hasDynamic_kept) (rule grows_frames [OF forEachChild_visit_grows [OF rest]])
qed

section \<open>The key of a translator call\<close>


section \<open>When the extraction returns\<close>

text \<open>
  The only exception of pass 2 is the TypeError of the destructured acquisition, and
  whether a declaration throws does not depend on the state.
\<close>

lemma acquirePromiseAll_None:
  "(acquirePromiseAll nm args ns = None) = (acquirePromiseAll nm args [] = None)"
  by (simp add: acquirePromiseAll_def split: list.splits node.splits option.splits)

lemma acquire_None: "(acquire n ns = None) = throwsTypeError n"
proof -
  have "(acquire n ns = None) = (acquire n [] = None)"
    using acquirePromiseAll_None [of _ _ "acquireGetTranslations _ _ ns"]
      acquirePromiseAll_None [of _ _ "acquireGetTranslations _ _ []"]
      acquirePromiseAll_None [of _ _ ns]
    by (simp add: acquire_def split: node.splits option.splits)
  then show ?thesis by (simp add: throwsTypeError_def)
qed

lemma visitNode_None: "(visitNode reg path n s = None) = throwsTypeError n"
  by (simp add: visitNode_def acquire_None [symmetric, of n "namespaces s"] split: option.splits)

lemma forEachChild_None:
  assumes "\<And>c t. c \<in> set cs \<Longrightarrow> (cb c t = None) = T c"
  shows "(forEachChild cb cs s = None) = (\<exists>c\<in>set cs. T c)"
  using assms
proof (induction cs arbitrary: s)
  case Nil
  then show ?case by simp
next
  case (Cons x xs)
  have head: "(cb x t = None) = T x" for t
    by (rule Cons.prems) simp
  have tail: "(forEachChild cb xs t = None) = (\<exists>c\<in>set xs. T c)" for t
  proof (rule Cons.IH)
    show "c \<in> set xs \<Longrightarrow> (cb c u = None) = T c" for c u
      by (rule Cons.prems) simp
  qed
  show ?case
  proof (cases "cb x s")
    case None
    then show ?thesis using head [of s] by simp
  next
    case (Some t)
    then show ?thesis using head [of s] tail [of t] by simp
  qed
qed

lemma visit_None:
  "(visit reg path n s = None) = (\<exists>m\<in>set (subnodes n). throwsTypeError m)"
proof (induction n arbitrary: s rule: subnodes.induct)
  case (1 n)
  have kids: "(forEachChild (visit reg path) (children n) t = None) =
              (\<exists>c\<in>set (children n). \<exists>m\<in>set (subnodes c). throwsTypeError m)" for t
    by (rule forEachChild_None) (rule "1.IH")
  have here: "set (subnodes n) = insert n (\<Union>c\<in>set (children n). set (subnodes c))"
    by (subst subnodes.simps) simp
  show ?case
  proof (cases "visitNode reg path n s")
    case None
    then show ?thesis
      using visitNode_None [of reg path n s] by (simp add: visit.simps [of reg path n s] here)
  next
    case (Some s1)
    then show ?thesis
      using visitNode_None [of reg path n s] kids [of s1]
      by (auto simp: visit.simps [of reg path n s] here split: option.splits)
  qed
qed

lemma flatMapKeys_None: "(flatMapKeys f ps = None) = (\<exists>p\<in>set ps. f p = None)"
  by (induction ps) (auto split: option.splits)

text \<open>
  The extraction returns a result exactly when no node of any of the files is a
  declaration that throws.
\<close>

lemma extractKeys_returns:
  "(\<exists>rs. extractKeys fs filesPaths = Some rs) =
   (\<forall>path\<in>set filesPaths. \<forall>c\<in>set (fs path). \<forall>m\<in>set (subnodes c). \<not> throwsTypeError m)"
proof -
  have perFile: "(getKeys reg fs path = None) = (\<exists>c\<in>set (fs path). \<exists>m\<in>set (subnodes c). throwsTypeError m)"
    for reg path
  proof -
    have "(forEachChild (visit reg path) (fs path) \<lparr>namespaces = [], foundKeys = []\<rparr> = None) =
          (\<exists>c\<in>set (fs path). \<exists>m\<in>set (subnodes c). throwsTypeError m)"
      by (rule forEachChild_None) (rule visit_None)
    then show ?thesis by (auto simp: getKeys_def split: option.splits)
  qed
  have "(extractKeys fs filesPaths = None) =
        (\<exists>path\<in>set filesPaths. \<exists>c\<in>set (fs path). \<exists>m\<in>set (subnodes c). throwsTypeError m)"
    using flatMapKeys_None [of "getKeys (registry fs filesPaths) fs" filesPaths]
    by (auto simp: extractKeys_def perFile split: option.splits)
  then show ?thesis by auto
qed

text \<open>
  A declaration throws exactly when it has the destructured shape, the array
  literal holds a \<^verbatim>\<open>getTranslations\<close> call, and the binding pattern ends before the
  index of the first such call.
\<close>

lemma throwsTypeError_destructured:
  "throwsTypeError (VariableDeclaration cs (ArrayBindingPattern c0 bound) cs_excl ty
      (Some (AwaitExpression c1 (CallExpression c2 f targs (ArrayLiteralExpression c3 elems # rest))))) =
   (\<exists>i. findIndex isGetTranslationsCall elems = Some i \<and> length bound \<le> i)"
  by (cases f; cases "findIndex isGetTranslationsCall elems")
     (simp_all add: throwsTypeError_def acquire_def acquirePromiseAll_def split: node.splits)

lemma identifier_name_never_throws:
  "\<not> throwsTypeError (VariableDeclaration cs (Identifier c0 v) cs_excl ty ini)"
  by (simp add: throwsTypeError_def acquire_def acquirePromiseAll_def
      split: option.splits node.splits list.splits)

section \<open>The bindings of the stack\<close>

text \<open>
  The namespace name that a variable resolves to depends on the bindings of the
  stack only. Marking keeps the bindings; so does the visit of a function-like node,
  which pops what was pushed below it.
\<close>

lemma bindings_append: "bindings (ns @ new) = bindings ns @ bindings new"
  by (simp add: bindings_def)

lemma bindings_length: "bindings a = bindings b \<Longrightarrow> length a = length b"
  by (metis bindings_def length_map)








section \<open>The resolution of a variable along the traversal\<close>









lemma subnodes_self: "n \<in> set (subnodes n)"
  by (subst subnodes.simps) simp









section \<open>A call after a binding\<close>


section \<open>The child lists of a file\<close>




section \<open>A dynamic frame below a function-like node\<close>

lemma pushed_later:
  assumes "keysKept a b" and "keysKept b c"
    and "r \<in> set (drop (length (foundKeys a)) (foundKeys b)) \<or>
         r \<in> set (drop (length (foundKeys b)) (foundKeys c))"
  shows "r \<in> set (drop (length (foundKeys a)) (foundKeys c))"
proof -
  from assms(1,2) obtain k1 k2 where "foundKeys b = foundKeys a @ k1" "foundKeys c = foundKeys b @ k2"
    by (auto simp: keysKept_def)
  then show ?thesis using assms(3) by auto
qed

text \<open>
  The three statements of claim C5 among the children of a node \<open>B\<close>: the visit of
  a node with \<open>B\<close> in its tree either has pushed the placeholder, or the node is not
  function-like and the dynamic frame is still on the stack, above what was there on
  arrival.
\<close>

lemma dynamic_frame_reported:
  assumes sub: "B \<in> set (subnodes n)"
    and kids: "children B = before @
       [OtherNode a1 False [OtherNode a2 False
           [VariableDeclaration a3 (Identifier a4 ''t'') None None
              (Some (CallExpression a5 (Identifier a6 ''useTranslations'') [] [StringLiteral a7 NS]))]],
         OtherNode b1 False [OtherNode b2 False
           [VariableDeclaration b3 (Identifier b4 ''key'') None None
              (Some (CallExpression b5 (Identifier b6 ''compute'') [] []))]],
         ExpressionStatement e1 (CallExpression e2 (Identifier e3 ''t'') [] [Identifier e4 ''key''])]
        @ following"
    and run: "visit reg path n s = Some s'"
  shows "\<lparr>key = NS, meta_file = path, meta_namespace = Some NS, meta_dynamic = True\<rparr>
           \<in> set (drop (length (foundKeys s)) (foundKeys s')) \<or>
         \<not> isFunctionLike n \<and> hasDynamic (length (namespaces s)) NS (namespaces s')"
  using sub run
proof (induction n arbitrary: s s' rule: subnodes.induct)
  case (1 n)
  let ?P = "\<lparr>key = NS, meta_file = path, meta_namespace = Some NS, meta_dynamic = True\<rparr>"
  from "1.prems"(2) obtain s1 s2 where s1: "visitNode reg path n s = Some s1"
    and s2: "forEachChild (visit reg path) (children n) s1 = Some s2"
    and s': "s' = scopeExit path n (length (namespaces s)) s2"
    by (rule visit_stages)
  have g1: "grows s s1" by (rule visitNode_grows [OF s1])
  have g2: "grows s1 s2" by (rule forEachChild_visit_grows [OF s2])
  have k3: "keysKept s2 s'" by (simp add: s' scopeExit_keysKept)
  have len1: "length (namespaces s) \<le> length (namespaces s1)"
    using grows_frames [OF g1] by (simp add: framesKept_def)
  from "1.prems"(1) consider "B = n" | c where "c \<in> set (children n)" "B \<in> set (subnodes c)"
    by (subst (asm) subnodes.simps) auto
  then have below: "?P \<in> set (drop (length (foundKeys s1)) (foundKeys s2)) \<or>
                    hasDynamic (length (namespaces s)) NS (namespaces s2)"
  proof cases
    case 1
    from s2 obtain w where w: "forEachChild (visit reg path) before s1 = Some w"
      and stmts: "forEachChild (visit reg path)
       ([OtherNode a1 False [OtherNode a2 False
           [VariableDeclaration a3 (Identifier a4 ''t'') None None
              (Some (CallExpression a5 (Identifier a6 ''useTranslations'') [] [StringLiteral a7 NS]))]],
         OtherNode b1 False [OtherNode b2 False
           [VariableDeclaration b3 (Identifier b4 ''key'') None None
              (Some (CallExpression b5 (Identifier b6 ''compute'') [] []))]],
         ExpressionStatement e1 (CallExpression e2 (Identifier e3 ''t'') [] [Identifier e4 ''key''])]
        @ following) w = Some s2"
      unfolding 1 [symmetric] kids
      by (auto simp: forEachChild_append split: option.splits)
    have "length (namespaces s) \<le> length (namespaces w)"
      using len1 grows_frames [OF forEachChild_visit_grows [OF w]] by (simp add: framesKept_def)
    with dynamic_statements_stack [OF stmts] show ?thesis
      using hasDynamic_lower by blast
  next
    case 2
    have "\<exists>u u'. visit reg path c u = Some u' \<and> grows s1 u \<and> grows u' s2"
    proof (rule forEachChild_reaches [where R = grows, OF _ _ _ s2 2(1)])
      show "grows t t" for t by (rule grows_refl)
      show "grows a b \<Longrightarrow> grows b c \<Longrightarrow> grows a c" for a b c by (rule grows_trans)
      show "visit reg path d t = Some t' \<Longrightarrow> grows t t'" for d t t' by (rule visit_grows)
    qed
    then obtain u u' where u: "visit reg path c u = Some u'" and gu: "grows s1 u"
      and gu': "grows u' s2"
      by blast
    from "1.IH" [OF 2(1) 2(2) u]
    consider "?P \<in> set (drop (length (foundKeys u)) (foundKeys u'))"
      | "hasDynamic (length (namespaces u)) NS (namespaces u')"
      by blast
    then show ?thesis
    proof cases
      case 1
      have "?P \<in> set (drop (length (foundKeys s1)) (foundKeys u'))"
        by (rule pushed_later [OF grows_keysKept [OF gu] visit_keysKept [OF u]]) (use 1 in simp)
      then have "?P \<in> set (drop (length (foundKeys s1)) (foundKeys s2))"
        using pushed_later [OF grows_keysKept [OF grows_trans [OF gu visit_grows [OF u]]]
            grows_keysKept [OF gu']]
        by blast
      then show ?thesis by simp
    next
      case 2
      have "length (namespaces s) \<le> length (namespaces u)"
        using len1 grows_frames [OF gu] by (simp add: framesKept_def)
      with 2 have "hasDynamic (length (namespaces s)) NS (namespaces u')"
        using hasDynamic_lower by blast
      then have "hasDynamic (length (namespaces s)) NS (namespaces s2)"
        using grows_frames [OF gu'] by (rule hasDynamic_kept)
      then show ?thesis by simp
    qed
  qed
  have k12: "keysKept s s1" "keysKept s1 s2" "keysKept s s2"
    using g1 g2 grows_trans [OF g1 g2] by (simp_all add: grows_keysKept)
  from below show ?case
  proof
    assume "?P \<in> set (drop (length (foundKeys s1)) (foundKeys s2))"
    then have "?P \<in> set (drop (length (foundKeys s)) (foundKeys s2))"
      using pushed_later [OF k12(1,2)] by blast
    then have "?P \<in> set (drop (length (foundKeys s)) (foundKeys s'))"
      using pushed_later [OF k12(3) k3] by blast
    then show ?thesis by simp
  next
    assume dyn: "hasDynamic (length (namespaces s)) NS (namespaces s2)"
    show ?thesis
    proof (cases "isFunctionLike n")
      case True
      from scopeExit_emits [OF True dyn, of path]
      have "?P \<in> set (drop (length (foundKeys s2)) (foundKeys s'))"
        by (simp add: s')
      then have "?P \<in> set (drop (length (foundKeys s)) (foundKeys s'))"
        using pushed_later [OF k12(3) k3] by blast
      then show ?thesis by simp
    next
      case False
      then have "s' = s2" by (simp add: s' scopeExit_def)
      then show ?thesis using dyn False by simp
    qed
  qed
qed

section \<open>Claim C1: inline calls in expression statements\<close>

lemma inlineCalls_call_of_call:
  "inlineCalls path
     (ExpressionStatement cs
       (CallExpression cs1 (CallExpression cs2 callee cs2_targs uargs) cs1_targs args)) s = s"
  by (simp add: inlineCalls_def Let_def)

lemma inlineCalls_method_of_call:
  "k \<noteq> [] \<Longrightarrow>
   inlineCalls path
     (ExpressionStatement cs
       (CallExpression cs1
         (PropertyAccessExpression cs2
           (CallExpression cs3 (Identifier cs4 ''useTranslations'') cs3_targs
              (StringLiteral cs5 ns # uargs))
           cs2_qdot method)
         cs1_targs (StringLiteral cs6 k # args))) s =
   s\<lparr>foundKeys := foundKeys s @
      [\<lparr>key = qualify ns k, meta_file = path, meta_namespace = Some ns, meta_dynamic = False\<rparr>]\<rparr>"
  by (simp add: inlineCalls_def Let_def firstStringLiteral_def USE_TRANSLATIONS_def)

text \<open>
  C1. An expression statement \<^verbatim>\<open>useTranslations(<literal>)(<literal>)\<close> should emit
  the combined key, as \<^verbatim>\<open>useTranslations(<literal>).<method>(<literal>)\<close> does. The
  extractor reads the namespace of the first shape into \<^verbatim>\<open>inlineNamespace\<close> and
  then pushes nothing: for the file \<^verbatim>\<open>useTranslations('ns1')('one');\<close> the result is
  empty, while \<^verbatim>\<open>useTranslations('ns1').rich('one');\<close> gives \<^verbatim>\<open>ns1.one\<close>.
\<close>

theorem inline_call_of_call_emits_nothing:
  "extractKeys (\<lambda>p. [exprStmt (call (call (ident ''useTranslations'') [str ''ns1'']) [str ''one''])])
     [''a.tsx''] = Some [] \<and>
   extractKeys (\<lambda>p. [exprStmt (call (PropertyAccessExpression []
                        (call (ident ''useTranslations'') [str ''ns1'']) None (ident ''rich'')) [str ''one''])])
     [''a.tsx''] =
     Some [\<lparr>key = ''ns1.one'', meta_file = ''a.tsx'', meta_namespace = Some ''ns1'',
            meta_dynamic = False\<rparr>]"
  by code_simp

text \<open>The same for every namespace, key and path.\<close>

lemma inline_call_of_call_any:
  "extractKeys (\<lambda>p. [exprStmt (call (call (ident ''useTranslations'') [str ns]) [str k])]) [path]
     = Some []"
  by (simp add: extractKeys_def registry_def collectFunctionsWithTParam_def registerFunction_def
      collectVisit.simps visit.simps getKeys_def visitNode_def acquire_def helperCalls_def inlineCalls_def directCall_def
      methodCall_def emitKey_def commentKeys_def scopeExit_def getCurrentNamespaces_def
      arraySort_def firstStringLiteral_def USE_TRANSLATIONS_def)

section \<open>Claim C2: a helper function called with an inline translator\<close>

text \<open>
  C2. The claim: with the helper \<^verbatim>\<open>const schema = (t) => t('required')\<close> in one file
  and the call \<^verbatim>\<open>schema(useTranslations('Form'))\<close> in some file, the result has a
  record with the key \<^verbatim>\<open>Form.required\<close>. Pass 1 registers a helper only when its
  first parameter has a function type or a type reference as its annotation (line
  55-56): the helper of the claim has none, nothing is registered, and the result
  is empty.
\<close>

theorem untyped_helper_counterexample:
  "registry sampleUntypedHelper [''schema.ts'', ''form.tsx''] = [] \<and>
   extractKeys sampleUntypedHelper [''schema.ts'', ''form.tsx''] = Some []"
  by code_simp

text \<open>
  C2 as amended. For every file set in which the first registered helper of the
  name \<open>nm\<close> is \<open>tf\<close> and some file contains the call
  \<^verbatim>\<open>nm(useTranslations(<literal ns>))\<close>, the result holds for every entry \<open>k\<close> of
  \<open>keysUsed tf\<close> the record with the key \<open>ns.k\<close> (the key \<open>k\<close> when \<open>ns\<close> is
  empty), the file of the call and the namespace \<open>ns\<close>. A helper is registered when
  its first parameter is an identifier annotated with a function type or a type
  reference and its body holds a call of the parameter with a string literal
  (lemma \<open>registry_registers\<close>).
\<close>

theorem helper_call_with_inline_translator:
  assumes "extractKeys fs filesPaths = Some rs"
    and "find (\<lambda>f. functionName f = nm) (registry fs filesPaths) = Some tf"
    and "path \<in> set filesPaths"
    and "c \<in> set (fs path)"
    and "CallExpression cs (Identifier c1 nm) cs_targs
           (CallExpression c2 (Identifier c3 ''useTranslations'') c2_targs
              (StringLiteral c4 ns # uargs) # args)
         \<in> set (subnodes c)"
    and "k \<in> set (keysUsed tf)"
  shows "\<lparr>key = qualify ns k, meta_file = path, meta_namespace = Some ns, meta_dynamic = False\<rparr>
         \<in> set rs"
proof -
  let ?m = "CallExpression cs (Identifier c1 nm) cs_targs
           (CallExpression c2 (Identifier c3 ''useTranslations'') c2_targs
              (StringLiteral c4 ns # uargs) # args)"
  let ?reg = "registry fs filesPaths"
  from extractKeys_visits [OF assms(1,3,4,5)]
  obtain t t' where t: "visit ?reg path ?m t = Some t'" "set (foundKeys t') \<subseteq> set rs" by blast
  from t(1) obtain ns0 where
    keys: "set (foundKeys (helperCalls ?reg path ?m (t\<lparr>namespaces := ns0\<rparr>))) \<subseteq> set (foundKeys t')"
    by (rule visit_node_keys)
  have "foundKeys (helperCalls ?reg path ?m (t\<lparr>namespaces := ns0\<rparr>)) =
        pushKeys path ns (keysUsed tf) (foundKeys t)"
    using assms(2)
    by (simp add: helperCalls_def helperPattern1_def helperPattern2_def USE_TRANSLATIONS_def)
  then show ?thesis
    using keys t(2) assms(6) by (auto simp: pushKeys_def)
qed

theorem helper_call_with_inline_translator_witness:
  "extractKeys sampleTypedHelper [''schema.ts'', ''form.tsx''] =
     Some [\<lparr>key = ''Form.required'', meta_file = ''form.tsx'', meta_namespace = Some ''Form'',
            meta_dynamic = False\<rparr>] \<and>
   find (\<lambda>f. functionName f = ''schema'') (registry sampleTypedHelper [''schema.ts'', ''form.tsx''])
     = Some \<lparr>functionName = ''schema'', paramName = ''t'', keysUsed = [''required'']\<rparr> \<and>
   \<lparr>key = qualify ''Form'' ''required'', meta_file = ''form.tsx'', meta_namespace = Some ''Form'',
     meta_dynamic = False\<rparr> \<in> set (the (extractKeys sampleTypedHelper [''schema.ts'', ''form.tsx'']))"
proof -
  have run: "extractKeys sampleTypedHelper [''schema.ts'', ''form.tsx''] =
     Some [\<lparr>key = ''Form.required'', meta_file = ''form.tsx'', meta_namespace = Some ''Form'',
            meta_dynamic = False\<rparr>]"
    by code_simp
  have reg: "find (\<lambda>f. functionName f = ''schema'')
       (registry sampleTypedHelper [''schema.ts'', ''form.tsx''])
     = Some \<lparr>functionName = ''schema'', paramName = ''t'', keysUsed = [''required'']\<rparr>"
    by code_simp
  have infile: "functionDeclaration ''Form''
           [exprStmt (call (ident ''schema'') [call (ident ''useTranslations'') [str ''Form'']])]
         \<in> set (sampleTypedHelper ''form.tsx'')"
    by (simp add: sampleTypedHelper_def)
  have sub: "call (ident ''schema'') [call (ident ''useTranslations'') [str ''Form'']]
         \<in> set (subnodes (functionDeclaration ''Form''
           [exprStmt (call (ident ''schema'') [call (ident ''useTranslations'') [str ''Form'']])]))"
    by (simp add: subnodes.simps)
  from helper_call_with_inline_translator [OF run reg _ infile sub, of "''required''"]
  show ?thesis
    using run reg by simp
qed

text \<open>
  The body scan of pass 1 starts at the children of the body: an arrow function
  whose body is itself the call, \<^verbatim>\<open>const schema = (t: Translator) => t('required')\<close>,
  registers nothing, with the annotation too. The amended claim speaks of the
  registered record and leaves this case out.
\<close>

lemma expression_body_is_not_scanned:
  "functionTracker (varDecl (ident ''schema'')
      (arrow [typedParameter ''t''] (call (ident ''t'') [str ''required''])))
     = Some \<lparr>functionName = ''schema'', paramName = ''t'', keysUsed = []\<rparr> \<and>
   registry (\<lambda>p. [constStmt (ident ''schema'')
      (arrow [typedParameter ''t''] (call (ident ''t'') [str ''required'']))]) [''schema.ts'']
     = []"
  by code_simp

section \<open>Claim C3: acquisition with an argument that is not a literal\<close>

text \<open>
  C3. The claim: a declaration \<^verbatim>\<open>var = useTranslations(arg)\<close> or
  \<^verbatim>\<open>var = await getTranslations(arg)\<close> whose argument is present but is not a string
  literal pushes a frame with the empty name. The extractor pushes the empty name
  only under \<^verbatim>\<open>argument === undefined\<close> (lines 170 and 214): for the identifier
  argument of \<^verbatim>\<open>const t = useTranslations(ns)\<close> and of
  \<^verbatim>\<open>const t = await getTranslations(ns)\<close> the stack stays empty, after the
  acquisition and after the whole visit of the declaration.
\<close>

theorem acquisition_nonliteral_argument_counterexample:
  "acquire (varDecl (ident ''t'') (call (ident ''useTranslations'') [ident ''ns''])) [] = Some [] \<and>
   acquire (varDecl (ident ''t'') (await (call (ident ''getTranslations'') [ident ''ns'']))) [] = Some [] \<and>
   visit [] ''a.tsx'' (varDecl (ident ''t'') (call (ident ''useTranslations'') [ident ''ns'']))
     \<lparr>namespaces = [], foundKeys = []\<rparr> = Some \<lparr>namespaces = [], foundKeys = []\<rparr> \<and>
   visit [] ''a.tsx'' (varDecl (ident ''t'') (await (call (ident ''getTranslations'') [ident ''ns''])))
     \<lparr>namespaces = [], foundKeys = []\<rparr> = Some \<lparr>namespaces = [], foundKeys = []\<rparr>"
  by code_simp

text \<open>
  C3 as amended. For \<^verbatim>\<open>var = useTranslations(arg)\<close> and
  \<^verbatim>\<open>var = await getTranslations(arg)\<close>: an argument that is present and is not a
  string literal (nor, for \<^verbatim>\<open>getTranslations\<close>, an object literal) pushes no frame;
  an absent argument pushes one frame with the empty name; a string literal pushes
  one frame with the literal as its name.
\<close>

theorem acquisition_by_argument_shape:
  "(\<not> isStringLiteral a \<longrightarrow>
      acquire (VariableDeclaration cs (Identifier c1 v) cs_excl ty
        (Some (CallExpression c2 (Identifier c3 ''useTranslations'') c2_targs (a # rest)))) ns = Some ns) \<and>
   (\<not> isStringLiteral a \<and> \<not> isObjectLiteralExpression a \<longrightarrow>
      acquire (VariableDeclaration cs (Identifier c1 v) cs_excl ty
        (Some (AwaitExpression c2 (CallExpression c3 (Identifier c4 ''getTranslations'') c3_targs (a # rest))))) ns
        = Some ns) \<and>
   acquire (VariableDeclaration cs (Identifier c1 v) cs_excl ty
     (Some (CallExpression c2 (Identifier c3 ''useTranslations'') c2_targs []))) ns
     = Some (ns @ [\<lparr>name = [], variable = v, dynamic = False\<rparr>]) \<and>
   acquire (VariableDeclaration cs (Identifier c1 v) cs_excl ty
     (Some (AwaitExpression c2 (CallExpression c3 (Identifier c4 ''getTranslations'') c3_targs [])))) ns
     = Some (ns @ [\<lparr>name = [], variable = v, dynamic = False\<rparr>]) \<and>
   acquire (VariableDeclaration cs (Identifier c1 v) cs_excl ty
     (Some (CallExpression c2 (Identifier c3 ''useTranslations'') c2_targs (StringLiteral c5 x # rest)))) ns
     = Some (ns @ [\<lparr>name = x, variable = v, dynamic = False\<rparr>]) \<and>
   acquire (VariableDeclaration cs (Identifier c1 v) cs_excl ty
     (Some (AwaitExpression c2
       (CallExpression c3 (Identifier c4 ''getTranslations'') c3_targs (StringLiteral c5 x # rest))))) ns
     = Some (ns @ [\<lparr>name = x, variable = v, dynamic = False\<rparr>])"
proof -
  have use: "acquire (VariableDeclaration cs (Identifier c1 v) cs_excl ty
        (Some (CallExpression c2 (Identifier c3 ''useTranslations'') c2_targs (a # rest)))) ns = Some ns"
    if "\<not> isStringLiteral a"
    using that
    by (cases a) (simp_all add: acquire_def acquireUseTranslations_def USE_TRANSLATIONS_def)
  have get: "acquire (VariableDeclaration cs (Identifier c1 v) cs_excl ty
        (Some (AwaitExpression c2 (CallExpression c3 (Identifier c4 ''getTranslations'') c3_targs (a # rest))))) ns
        = Some ns"
    if "\<not> isStringLiteral a" "\<not> isObjectLiteralExpression a"
    using that
    by (cases a) (simp_all add: acquire_def acquireGetTranslations_def acquirePromiseAll_def
        GET_TRANSLATIONS_def split: option.splits)
  have rest: "acquire (VariableDeclaration cs (Identifier c1 v) cs_excl ty
     (Some (CallExpression c2 (Identifier c3 ''useTranslations'') c2_targs []))) ns
     = Some (ns @ [\<lparr>name = [], variable = v, dynamic = False\<rparr>])"
    "acquire (VariableDeclaration cs (Identifier c1 v) cs_excl ty
     (Some (AwaitExpression c2 (CallExpression c3 (Identifier c4 ''getTranslations'') c3_targs [])))) ns
     = Some (ns @ [\<lparr>name = [], variable = v, dynamic = False\<rparr>])"
    "acquire (VariableDeclaration cs (Identifier c1 v) cs_excl ty
     (Some (CallExpression c2 (Identifier c3 ''useTranslations'') c2_targs (StringLiteral c5 x # rest)))) ns
     = Some (ns @ [\<lparr>name = x, variable = v, dynamic = False\<rparr>])"
    "acquire (VariableDeclaration cs (Identifier c1 v) cs_excl ty
     (Some (AwaitExpression c2
       (CallExpression c3 (Identifier c4 ''getTranslations'') c3_targs (StringLiteral c5 x # rest))))) ns
     = Some (ns @ [\<lparr>name = x, variable = v, dynamic = False\<rparr>])"
    by (simp_all add: acquire_def acquireUseTranslations_def acquireGetTranslations_def
        acquirePromiseAll_def USE_TRANSLATIONS_def GET_TRANSLATIONS_def pushNamespace_def
        variableOf_def)
  from use get rest show ?thesis by blast
qed

theorem acquisition_by_argument_shape_witness:
  "\<not> isStringLiteral (ident ''ns'') \<and> \<not> isObjectLiteralExpression (ident ''ns'') \<and>
   acquire (varDecl (ident ''t'') (call (ident ''useTranslations'') [ident ''ns'']))
     [\<lparr>name = ''Outer'', variable = ''t'', dynamic = False\<rparr>]
     = Some [\<lparr>name = ''Outer'', variable = ''t'', dynamic = False\<rparr>] \<and>
   acquire (varDecl (ident ''t'') (await (call (ident ''getTranslations'') [ident ''ns''])))
     [\<lparr>name = ''Outer'', variable = ''t'', dynamic = False\<rparr>]
     = Some [\<lparr>name = ''Outer'', variable = ''t'', dynamic = False\<rparr>] \<and>
   acquire (varDecl (ident ''t'') (call (ident ''useTranslations'') []))
     [\<lparr>name = ''Outer'', variable = ''t'', dynamic = False\<rparr>]
     = Some [\<lparr>name = ''Outer'', variable = ''t'', dynamic = False\<rparr>,
             \<lparr>name = [], variable = ''t'', dynamic = False\<rparr>]"
  using acquisition_by_argument_shape [where a = "ident ''ns''" and cs = "[]" and ?c1.0 = "[]"
      and v = "''t''" and ty = None and ?c2.0 = "[]" and ?c3.0 = "[]" and ?c4.0 = "[]"
      and rest = "[]" and ns = "[\<lparr>name = ''Outer'', variable = ''t'', dynamic = False\<rparr>]"]
  by simp

section \<open>Claim C4: a helper function that is defined twice\<close>

text \<open>
  C4. The claim: when two helper functions of the same name are registered, pass 2
  resolves a call of that name with the record registered last. Pass 1 appends
  every record (\<^verbatim>\<open>globalFunctionsWithTParam.push\<close>, line 88) and pass 2 looks the
  name up with \<^verbatim>\<open>Array.prototype.find\<close> (line 288), which answers the first match:
  with \<^verbatim>\<open>schema\<close> defined in \<^verbatim>\<open>first.ts\<close> (key \<^verbatim>\<open>first\<close>) and again in
  \<^verbatim>\<open>second.ts\<close> (key \<^verbatim>\<open>second\<close>), the call \<^verbatim>\<open>schema(useTranslations('Form'))\<close>
  gives \<^verbatim>\<open>Form.first\<close> and not \<^verbatim>\<open>Form.second\<close>.
\<close>

theorem redefined_helper_counterexample:
  "registry sampleRedefinedHelper [''first.ts'', ''second.ts'', ''form.tsx''] =
     [\<lparr>functionName = ''schema'', paramName = ''t'', keysUsed = [''first'']\<rparr>,
      \<lparr>functionName = ''schema'', paramName = ''t'', keysUsed = [''second'']\<rparr>] \<and>
   extractKeys sampleRedefinedHelper [''first.ts'', ''second.ts'', ''form.tsx''] =
     Some [\<lparr>key = ''Form.first'', meta_file = ''form.tsx'', meta_namespace = Some ''Form'',
            meta_dynamic = False\<rparr>]"
  by code_simp

text \<open>
  C4 as amended. When several helper functions of the same name are registered,
  pass 2 resolves a call of that name with the record registered first: the keys
  pushed for the call are those of the first record of that name in the registry,
  for an inline \<^verbatim>\<open>useTranslations(<literal>)\<close> argument and for an identifier that
  is bound to a frame. (The registry is in registration order: \<open>registry_snoc\<close>.)
\<close>

theorem helper_call_uses_first_registered:
  assumes "functionName r = nm"
    and "\<forall>f\<in>set earlier. functionName f \<noteq> nm"
  shows "find (\<lambda>f. functionName f = nm) (earlier @ r # later) = Some r \<and>
         helperCalls (earlier @ r # later) path
           (CallExpression cs (Identifier c1 nm) cs_targs
           (CallExpression c2 (Identifier c3 ''useTranslations'') c2_targs
              (StringLiteral c4 ns # uargs) # args)) s
           = s\<lparr>foundKeys := pushKeys path ns (keysUsed r) (foundKeys s)\<rparr> \<and>
         (\<forall>frame. getCurrentNamespaceForIdentifier v (namespaces s) = Some frame \<longrightarrow>
            helperCalls (earlier @ r # later) path
              (CallExpression cs (Identifier c1 nm) cs_targs (Identifier c2 v # args)) s
            = s\<lparr>foundKeys := pushKeys path (name frame) (keysUsed r) (foundKeys s)\<rparr>)"
proof -
  have found: "find (\<lambda>f. functionName f = nm) (earlier @ r # later) = Some r"
    using assms by (simp add: find_skips)
  then show ?thesis
    by (simp add: helperCalls_def helperPattern1_def helperPattern2_def USE_TRANSLATIONS_def)
qed

theorem helper_call_uses_first_registered_witness:
  "functionName \<lparr>functionName = ''schema'', paramName = ''t'', keysUsed = [''first'']\<rparr> = ''schema'' \<and>
   helperCalls
     ([\<lparr>functionName = ''login'', paramName = ''t'', keysUsed = [''user'']\<rparr>] @
      \<lparr>functionName = ''schema'', paramName = ''t'', keysUsed = [''first'']\<rparr> #
      [\<lparr>functionName = ''schema'', paramName = ''t'', keysUsed = [''second'']\<rparr>])
     ''form.tsx'' (call (ident ''schema'') [call (ident ''useTranslations'') [str ''Form'']])
     \<lparr>namespaces = [], foundKeys = []\<rparr>
   = \<lparr>namespaces = [],
      foundKeys = [\<lparr>key = ''Form.first'', meta_file = ''form.tsx'', meta_namespace = Some ''Form'',
                    meta_dynamic = False\<rparr>]\<rparr>"
  using helper_call_uses_first_registered
    [where r = "\<lparr>functionName = ''schema'', paramName = ''t'', keysUsed = [''first'']\<rparr>"
       and nm = "''schema''"
       and earlier = "[\<lparr>functionName = ''login'', paramName = ''t'', keysUsed = [''user'']\<rparr>]"
       and later = "[\<lparr>functionName = ''schema'', paramName = ''t'', keysUsed = [''second'']\<rparr>]"
       and path = "''form.tsx''" and cs = "[]" and ?c1.0 = "[]" and ?c2.0 = "[]" and ?c3.0 = "[]"
       and ?c4.0 = "[]" and ns = "''Form''" and uargs = "[]" and args = "[]"
       and s = "\<lparr>namespaces = [], foundKeys = []\<rparr>"]
  by (simp add: pushKeys_def qualify_def)

section \<open>Claim C5: the placeholder of a dynamic key\<close>

text \<open>
  C5. The claim: every file that contains
  \<^verbatim>\<open>const t = useTranslations('NS'); const key = compute(); t(key);\<close> yields the
  placeholder record with the key \<^verbatim>\<open>NS\<close> and \<^verbatim>\<open>meta.dynamic = true\<close>. The placeholder
  is pushed only when a function-like node is left (line 475): for a file that has
  the three statements at its top level nothing is pushed, and the result is empty.
\<close>

theorem dynamic_key_at_top_level_counterexample:
  "extractKeys (\<lambda>p. [constStmt (ident ''t'') (call (ident ''useTranslations'') [str ''NS'']),
                      constStmt (ident ''key'') (call (ident ''compute'') []),
                      exprStmt (call (ident ''t'') [ident ''key''])]) [''a.tsx''] = Some []"
  by code_simp

text \<open>
  C5 as amended. For every file set and every file of it in which the statements
  \<^verbatim>\<open>const t = useTranslations('NS'); const key = compute(); t(key);\<close> stand one after
  the other among the children of a node \<open>B\<close> (whatever stands before and after
  them, and whatever comments they carry), and \<open>B\<close> is a function-like node
  \<open>F\<close> or lies below it at any depth: the result contains the placeholder record
  with the key \<^verbatim>\<open>NS\<close>, the file, the namespace \<^verbatim>\<open>NS\<close> and \<^verbatim>\<open>meta.dynamic = true\<close>;
  the record is pushed while \<open>F\<close> is visited; the search for translator calls
  raises no key at the call \<^verbatim>\<open>t(key)\<close>, so lines 425-432 push no record for it.
  (Lemma \<open>dynamic_frame_reported\<close>: as long as the nodes that are left are not
  function-like the dynamic frame stays on the stack, and the scope exit of the
  first function-like node that is left pushes the record.)
\<close>

theorem dynamic_key_placeholder:
  assumes "extractKeys fs filesPaths = Some rs"
    and "path \<in> set filesPaths"
    and "c \<in> set (fs path)"
    and "F \<in> set (subnodes c)"
    and "isFunctionLike F"
    and "B \<in> set (subnodes F)"
    and "children B = before @
       [OtherNode a1 False [OtherNode a2 False
           [VariableDeclaration a3 (Identifier a4 ''t'') None None
              (Some (CallExpression a5 (Identifier a6 ''useTranslations'') [] [StringLiteral a7 NS]))]],
         OtherNode b1 False [OtherNode b2 False
           [VariableDeclaration b3 (Identifier b4 ''key'') None None
              (Some (CallExpression b5 (Identifier b6 ''compute'') [] []))]],
         ExpressionStatement e1 (CallExpression e2 (Identifier e3 ''t'') [] [Identifier e4 ''key''])]
        @ following"
  shows "\<lparr>key = NS, meta_file = path, meta_namespace = Some NS, meta_dynamic = True\<rparr> \<in> set rs \<and>
         (\<exists>t t'. visit (registry fs filesPaths) path F t = Some t' \<and>
            \<lparr>key = NS, meta_file = path, meta_namespace = Some NS, meta_dynamic = True\<rparr>
              \<in> set (drop (length (foundKeys t)) (foundKeys t')) \<and>
            set (foundKeys t') \<subseteq> set rs) \<and>
         (\<forall>u. emitKey path
                 (methodCall (CallExpression e2 (Identifier e3 ''t'') [] [Identifier e4 ''key''])
                   (directCall (CallExpression e2 (Identifier e3 ''t'') [] [Identifier e4 ''key''])
                      (None, u)))
               = u\<lparr>namespaces := stackAfterCall ''t'' [Identifier e4 ''key''] (namespaces u)\<rparr>)"
proof -
  let ?P = "\<lparr>key = NS, meta_file = path, meta_namespace = Some NS, meta_dynamic = True\<rparr>"
  from extractKeys_visits [OF assms(1-4)]
  obtain t t' where t: "visit (registry fs filesPaths) path F t = Some t'"
    and sub: "set (foundKeys t') \<subseteq> set rs"
    by blast
  from dynamic_frame_reported [OF assms(6,7) t] assms(5)
  have pushed: "?P \<in> set (drop (length (foundKeys t)) (foundKeys t'))"
    by blast
  then have "?P \<in> set (foundKeys t')"
    by (rule in_set_dropD)
  with sub have placeholder: "?P \<in> set rs"
    by blast
  have "emitKey path
          (methodCall (CallExpression e2 (Identifier e3 ''t'') [] [Identifier e4 ''key''])
            (directCall (CallExpression e2 (Identifier e3 ''t'') [] [Identifier e4 ''key'']) (None, u)))
        = u\<lparr>namespaces := stackAfterCall ''t'' [Identifier e4 ''key''] (namespaces u)\<rparr>" for u
  proof (cases "getCurrentNamespaces 1 (namespaces u) = None")
    case True
    then have "namespaces u = []"
      by (simp add: getCurrentNamespaces_def split: if_splits)
    then show ?thesis
      by (simp add: directCall_def methodCall_def emitKey_def getCurrentNamespaces_def
          stackAfterCall_Nil)
  next
    case False
    then show ?thesis
      by (simp add: directCall_def methodCall_def emitKey_def translatorCall_def stackAfterCall_def
          split: option.splits)
  qed
  with placeholder pushed t sub show ?thesis by blast
qed

theorem dynamic_key_placeholder_witness:
  "extractKeys sampleDynamicNested [''page.tsx''] =
     Some [\<lparr>key = ''NS'', meta_file = ''page.tsx'', meta_namespace = Some ''NS'',
            meta_dynamic = True\<rparr>] \<and>
   isFunctionLike (functionDeclaration ''Page''
        [OtherNode [] False
           [ident ''ready'',
            block [constStmt (ident ''t'') (call (ident ''useTranslations'') [str ''NS'']),
                   constStmt (ident ''key'') (call (ident ''compute'') []),
                   exprStmt (call (ident ''t'') [ident ''key''])]]]) \<and>
   \<lparr>key = ''NS'', meta_file = ''page.tsx'', meta_namespace = Some ''NS'', meta_dynamic = True\<rparr>
     \<in> set (the (extractKeys sampleDynamicNested [''page.tsx'']))"
proof -
  let ?B = "block [constStmt (ident ''t'') (call (ident ''useTranslations'') [str ''NS'']),
                   constStmt (ident ''key'') (call (ident ''compute'') []),
                   exprStmt (call (ident ''t'') [ident ''key''])]"
  let ?F = "functionDeclaration ''Page'' [OtherNode [] False [ident ''ready'', ?B]]"
  have run: "extractKeys sampleDynamicNested [''page.tsx''] =
     Some [\<lparr>key = ''NS'', meta_file = ''page.tsx'', meta_namespace = Some ''NS'',
            meta_dynamic = True\<rparr>]"
    by code_simp
  have infile: "?F \<in> set (sampleDynamicNested ''page.tsx'')"
    by (simp add: sampleDynamicNested_def)
  have sub: "?F \<in> set (subnodes ?F)"
    by (subst subnodes.simps) simp
  have fl: "isFunctionLike ?F" by simp
  have below: "?B \<in> set (subnodes ?F)"
    by code_simp
  have kids: "children ?B = [] @
       [constStmt (ident ''t'') (call (ident ''useTranslations'') [str ''NS'']),
        constStmt (ident ''key'') (call (ident ''compute'') []),
        exprStmt (call (ident ''t'') [ident ''key''])] @ []"
    by simp
  from dynamic_key_placeholder [OF run _ infile sub fl below kids]
  show ?thesis
    using run by simp
qed

text \<open>The three statements directly in the body of a function.\<close>

lemma dynamic_key_in_function_body:
  "extractKeys sampleDynamic [''page.tsx''] =
     Some [\<lparr>key = ''NS'', meta_file = ''page.tsx'', meta_namespace = Some ''NS'',
            meta_dynamic = True\<rparr>]"
  by code_simp

section \<open>Claim C6: acquisition with an object literal\<close>

text \<open>
  C6. The claim: for \<^verbatim>\<open>var = await getTranslations({ ... })\<close> exactly one frame is
  pushed per \<^verbatim>\<open>namespace: <literal>\<close> property, and none for any other property.
  The loop of lines 198-211 has an \<^verbatim>\<open>else\<close> that pushes a frame with the empty name
  for every other property, where the same loop of the destructured form (lines
  261-272) pushes nothing. For
  \<^verbatim>\<open>const t = await getTranslations({ namespace: 'NS', locale: 'en' })\<close> two frames
  are pushed, the empty one last, so that \<^verbatim>\<open>t('k')\<close> in the same function
  (\<^verbatim>\<open>async function Page() { ... }\<close>) is extracted as \<^verbatim>\<open>k\<close> and not as \<^verbatim>\<open>NS.k\<close>.
\<close>

theorem object_argument_pushes_frame_per_property:
  "acquire (varDecl (ident ''t'') (await (call (ident ''getTranslations'')
       [ObjectLiteralExpression [] [property ''namespace'' (str ''NS''), property ''locale'' (str ''en'')]])))
     [] = Some [\<lparr>name = ''NS'', variable = ''t'', dynamic = False\<rparr>,
               \<lparr>name = [], variable = ''t'', dynamic = False\<rparr>] \<and>
   extractKeys (\<lambda>p. [asyncFunctionDeclaration ''Page''
       [constStmt (ident ''t'') (await (call (ident ''getTranslations'')
          [ObjectLiteralExpression [] [property ''namespace'' (str ''NS''), property ''locale'' (str ''en'')]])),
        exprStmt (call (ident ''t'') [str ''k''])]]) [''page.tsx'']
     = Some [\<lparr>key = ''k'', meta_file = ''page.tsx'', meta_namespace = Some [],
              meta_dynamic = False\<rparr>]"
  by code_simp

text \<open>
  For every object literal the number of frames is the number of its properties;
  the destructured form pushes one frame per \<^verbatim>\<open>namespace\<close> property.
\<close>

lemma object_argument_frames:
  "acquire (VariableDeclaration cs (Identifier c1 v) cs_excl ty
     (Some (AwaitExpression c2 (CallExpression c3 (Identifier c4 ''getTranslations'')
        c3_targs (ObjectLiteralExpression c5 props # rest))))) ns =
   Some (ns @ map (\<lambda>property. \<lparr>name = (case namespaceProperty property of Some x \<Rightarrow> x | None \<Rightarrow> []),
                                 variable = v, dynamic = False\<rparr>) props)"
  by (simp add: acquire_def GET_TRANSLATIONS_def acquireGetTranslations_object acquirePromiseAll_def
      variableOf_def)

section \<open>Claim C7: shadowing\<close>




section \<open>Claim C8: the order of the result\<close>

text \<open>
  C8. The sequence that \<^verbatim>\<open>extract\<close> returns is sorted ascending by key: the keys
  form a sorted list, and every key is at most the key of the element after it.
\<close>

theorem extractKeys_sorted:
  assumes "extractKeys fs filesPaths = Some rs"
  shows "sorted (map key rs) \<and> (\<forall>i. Suc i < length rs \<longrightarrow> key (rs ! i) \<le> key (rs ! Suc i))"
proof -
  from assms obtain every where rs: "rs = arraySort compareFn every"
    by (auto simp: extractKeys_def split: option.splits)
  have sorted: "sorted (map key rs)"
    by (simp add: rs sorted_arraySort)
  have "key (rs ! i) \<le> key (rs ! Suc i)" if "Suc i < length rs" for i
    using sorted_nth_mono [OF sorted, of i "Suc i"] that by simp
  with sorted show ?thesis by blast
qed

theorem extractKeys_sorted_witness:
  "extractKeys sampleUnsorted [''b.tsx'', ''a.tsx''] =
     Some [\<lparr>key = ''a.k'', meta_file = ''a.tsx'', meta_namespace = Some ''a'', meta_dynamic = False\<rparr>,
           \<lparr>key = ''a.k'', meta_file = ''a.tsx'', meta_namespace = Some ''a'', meta_dynamic = False\<rparr>,
           \<lparr>key = ''b.a'', meta_file = ''b.tsx'', meta_namespace = Some ''b'', meta_dynamic = False\<rparr>,
           \<lparr>key = ''b.z'', meta_file = ''b.tsx'', meta_namespace = Some ''b'', meta_dynamic = False\<rparr>] \<and>
   sorted (map key (the (extractKeys sampleUnsorted [''b.tsx'', ''a.tsx''])))"
proof -
  have run: "extractKeys sampleUnsorted [''b.tsx'', ''a.tsx''] =
     Some [\<lparr>key = ''a.k'', meta_file = ''a.tsx'', meta_namespace = Some ''a'', meta_dynamic = False\<rparr>,
           \<lparr>key = ''a.k'', meta_file = ''a.tsx'', meta_namespace = Some ''a'', meta_dynamic = False\<rparr>,
           \<lparr>key = ''b.a'', meta_file = ''b.tsx'', meta_namespace = Some ''b'', meta_dynamic = False\<rparr>,
           \<lparr>key = ''b.z'', meta_file = ''b.tsx'', meta_namespace = Some ''b'', meta_dynamic = False\<rparr>]"
    by code_simp
  from extractKeys_sorted [OF run] show ?thesis
    unfolding run by simp
qed

text \<open>
  Sorting only reorders: the result has every record as often as the concatenation
  of the files' keys has it.
\<close>

lemma extractKeys_permutes:
  assumes "extractKeys fs filesPaths = Some rs"
  shows "\<exists>ks. flatMapKeys (getKeys (registry fs filesPaths) fs) filesPaths = Some ks \<and>
              (\<forall>r. count_list rs r = count_list ks r)"
  using assms by (auto simp: extractKeys_def count_arraySort split: option.splits)

text \<open>
  Records with equal keys come out in the reverse of their order in
  \<^verbatim>\<open>foundKeys\<close>: two files with the same call, read as \<^verbatim>\<open>a.tsx\<close>, then \<^verbatim>\<open>b.tsx\<close>.
\<close>

lemma equal_keys_are_reversed:
  "extractKeys (\<lambda>p. [functionDeclaration ''Page''
       [constStmt (ident ''t'') (call (ident ''useTranslations'') [str ''NS'']),
        exprStmt (call (ident ''t'') [str ''k''])]]) [''a.tsx'', ''b.tsx'']
   = Some [\<lparr>key = ''NS.k'', meta_file = ''b.tsx'', meta_namespace = Some ''NS'',
            meta_dynamic = False\<rparr>,
           \<lparr>key = ''NS.k'', meta_file = ''a.tsx'', meta_namespace = Some ''NS'',
            meta_dynamic = False\<rparr>]"
  by code_simp

section \<open>Claim C9: the destructured acquisition\<close>

text \<open>
  C9. The claim: for every declaration \<^verbatim>\<open>[.., var, ..] = await f([...])\<close> whose
  array literal contains a \<^verbatim>\<open>getTranslations(...)\<close> element, a frame is pushed for
  the binding element at the matching position, whatever \<open>f\<close> is. The callee is
  indeed not inspected, but a frame is pushed only for the first such element, and
  only when its argument is absent, a string literal or an object literal:
  \<^verbatim>\<open>const [t] = await f([getTranslations(ns)])\<close> pushes nothing, and
  \<^verbatim>\<open>const [a, b] = await f([getTranslations('A'), getTranslations('B')])\<close> pushes
  a frame for \<^verbatim>\<open>a\<close> and none for \<^verbatim>\<open>b\<close>.
\<close>

theorem destructured_acquisition_counterexample:
  "acquire (varDecl (ArrayBindingPattern [] [BindingElement [] [] (ident ''t'') None])
      (await (call (ident ''f'')
         [ArrayLiteralExpression [] [call (ident ''getTranslations'') [ident ''ns'']]]))) [] = Some [] \<and>
   acquire (varDecl (ArrayBindingPattern [] [BindingElement [] [] (ident ''a'') None, BindingElement [] [] (ident ''b'') None])
      (await (call (ident ''f'')
         [ArrayLiteralExpression [] [call (ident ''getTranslations'') [str ''A''],
                                     call (ident ''getTranslations'') [str ''B'']]]))) []
     = Some [\<lparr>name = ''A'', variable = ''a'', dynamic = False\<rparr>]"
  by code_simp

text \<open>
  C9 as amended. The awaited callee \<open>f\<close> is any expression. When the first
  \<^verbatim>\<open>getTranslations(...)\<close> element of the array literal stands at index \<open>i\<close> and the
  binding pattern has at index \<open>i\<close> a binding element named by the identifier \<open>v\<close>,
  the frames pushed are: one with the empty name when the call has no argument; one
  with the literal when its first argument is a string literal; one per
  \<^verbatim>\<open>namespace: <literal>\<close> property when it is an object literal; none for any other
  argument. Every pushed frame has the variable \<open>v\<close>.
\<close>

theorem destructured_acquisition_any_callee:
  assumes "findIndex isGetTranslationsCall elems = Some i"
    and "i < length bound"
    and "bound ! i = BindingElement c1 c1_mods (Identifier c2 v) ini"
    and "elems ! i = CallExpression c3 g c3_targs gargs"
  shows "(gargs = [] \<longrightarrow>
            acquire (VariableDeclaration cs (ArrayBindingPattern c0 bound) cs_excl ty
              (Some (AwaitExpression c4 (CallExpression c5 f c5_targs (ArrayLiteralExpression c6 elems # rest))))) ns
            = Some (ns @ [\<lparr>name = [], variable = v, dynamic = False\<rparr>])) \<and>
         (\<forall>c x more. gargs = StringLiteral c x # more \<longrightarrow>
            acquire (VariableDeclaration cs (ArrayBindingPattern c0 bound) cs_excl ty
              (Some (AwaitExpression c4 (CallExpression c5 f c5_targs (ArrayLiteralExpression c6 elems # rest))))) ns
            = Some (ns @ [\<lparr>name = x, variable = v, dynamic = False\<rparr>])) \<and>
         (\<forall>c props more. gargs = ObjectLiteralExpression c props # more \<longrightarrow>
            acquire (VariableDeclaration cs (ArrayBindingPattern c0 bound) cs_excl ty
              (Some (AwaitExpression c4 (CallExpression c5 f c5_targs (ArrayLiteralExpression c6 elems # rest))))) ns
            = Some (ns @ map (\<lambda>x. \<lparr>name = x, variable = v, dynamic = False\<rparr>)
                             (List.map_filter namespaceProperty props))) \<and>
         (\<forall>a more. gargs = a # more \<and> \<not> isStringLiteral a \<and> \<not> isObjectLiteralExpression a \<longrightarrow>
            acquire (VariableDeclaration cs (ArrayBindingPattern c0 bound) cs_excl ty
              (Some (AwaitExpression c4 (CallExpression c5 f c5_targs (ArrayLiteralExpression c6 elems # rest))))) ns
            = Some ns)"
proof -
  let ?decl = "VariableDeclaration cs (ArrayBindingPattern c0 bound) cs_excl ty
              (Some (AwaitExpression c4 (CallExpression c5 f c5_targs (ArrayLiteralExpression c6 elems # rest))))"
  have first: "(case f of
            Identifier cs3 h \<Rightarrow>
              (if h = GET_TRANSLATIONS
               then acquireGetTranslations (ArrayBindingPattern c0 bound)
                      (ArrayLiteralExpression c6 elems # rest) ns
               else ns)
          | _ \<Rightarrow> ns) = ns"
    by (cases f) (simp_all add: acquireGetTranslations_def)
  have run: "acquire ?decl ns = Some (acquireFromElement v (CallExpression c3 g c3_targs gargs) ns)"
    using assms by (simp add: acquire_def first acquirePromiseAll_def)
  have none: "acquireFromElement v (CallExpression c3 g c3_targs (a # more)) ns = ns"
    if "\<not> isStringLiteral a" "\<not> isObjectLiteralExpression a" for a more
    using that by (cases a) (simp_all add: acquireFromElement_def)
  show ?thesis
    unfolding run
    by (auto simp: acquireFromElement_object none) (simp_all add: acquireFromElement_def pushNamespace_def)
qed

theorem destructured_acquisition_any_callee_witness:
  "findIndex isGetTranslationsCall [call (ident ''loadData'') [ident ''id''],
                                    call (ident ''getTranslations'') [str ''NS'']] = Some 1 \<and>
   acquire (varDecl (ArrayBindingPattern [] [BindingElement [] [] (ident ''data'') None, BindingElement [] [] (ident ''t'') None])
      (await (call (ident ''settle'')
         [ArrayLiteralExpression [] [call (ident ''loadData'') [ident ''id''],
                                     call (ident ''getTranslations'') [str ''NS'']]]))) []
     = Some [\<lparr>name = ''NS'', variable = ''t'', dynamic = False\<rparr>]"
proof -
  have i: "findIndex isGetTranslationsCall [call (ident ''loadData'') [ident ''id''],
                                    call (ident ''getTranslations'') [str ''NS'']] = Some 1"
    by code_simp
  show ?thesis
    using i destructured_acquisition_any_callee [OF i,
        where bound = "[BindingElement [] [] (ident ''data'') None, BindingElement [] [] (ident ''t'') None]"
          and ?c1.0 = "[]" and ?c2.0 = "[]" and v = "''t''" and ?c3.0 = "[]"
          and g = "ident ''getTranslations''" and gargs = "[str ''NS'']" and cs = "[]"
          and ?c0.0 = "[]" and ty = None and ?c4.0 = "[]" and ?c5.0 = "[]" and ini = None
          and f = "ident ''settle''" and ?c6.0 = "[]" and rest = "[]" and ns = "[]"]
    by simp
qed

text \<open>
  A binding pattern that is shorter than the index of the call makes the extractor
  throw: \<^verbatim>\<open>const [data] = await Promise.all([loadData(id), getTranslations('NS')])\<close>
  in \<^verbatim>\<open>async function Page() { ... }\<close>.
\<close>

lemma destructured_acquisition_throws:
  "extractKeys (\<lambda>p. [asyncFunctionDeclaration ''Page''
      [constStmt (ArrayBindingPattern [] [BindingElement [] [] (ident ''data'') None])
         (await (call (PropertyAccessExpression [] (ident ''Promise'') None (ident ''all''))
           [ArrayLiteralExpression [] [call (ident ''loadData'') [ident ''id''],
                                       call (ident ''getTranslations'') [str ''NS'']]]))]])
     [''page.tsx''] = None"
  by code_simp

section \<open>Claim C10: marking a namespace dynamic\<close>

text \<open>
  C10. The claim: a call through a translator variable that uses a non-literal key
  marks the frames that carry the namespace name of the variable. Only an
  identifier and a template expression are tested (lines 395-399 and 416-420): for
  \<^verbatim>\<open>u(obj.key)\<close>, whose key is a property access, no frame is marked, and the
  function \<^verbatim>\<open>function Page() { const t = useTranslations('NS'); t(obj.key); }\<close> gives
  no placeholder.
\<close>

theorem nonliteral_key_not_marked_counterexample:
  "visit [] ''a.tsx'' (call (ident ''u'') [PropertyAccessExpression [] (ident ''obj'') None (ident ''key'')])
     \<lparr>namespaces = [\<lparr>name = ''Shared'', variable = ''t'', dynamic = False\<rparr>,
                     \<lparr>name = ''Other'', variable = ''o'', dynamic = False\<rparr>,
                     \<lparr>name = ''Shared'', variable = ''u'', dynamic = False\<rparr>],
      foundKeys = []\<rparr>
     = Some \<lparr>namespaces = [\<lparr>name = ''Shared'', variable = ''t'', dynamic = False\<rparr>,
                           \<lparr>name = ''Other'', variable = ''o'', dynamic = False\<rparr>,
                           \<lparr>name = ''Shared'', variable = ''u'', dynamic = False\<rparr>],
            foundKeys = []\<rparr> \<and>
   extractKeys (\<lambda>p. [functionDeclaration ''Page''
       [constStmt (ident ''t'') (call (ident ''useTranslations'') [str ''NS'']),
        exprStmt (call (ident ''t'') [PropertyAccessExpression [] (ident ''obj'') None (ident ''key'')])]])
     [''a.tsx''] = Some []"
  by code_simp

text \<open>
  C10 as amended. A call through a translator variable \<open>v\<close> marks by namespace
  name when its first argument is an identifier or a template expression: with
  \<open>frame\<close> the frame that \<open>v\<close> resolves to, every frame of the stack whose name is
  the name of \<open>frame\<close> becomes dynamic, whatever its variable, and every other
  frame keeps its flag. For every other first argument, and for a call without
  arguments, every frame keeps its flag. This holds for \<^verbatim>\<open>v(arg)\<close> and for
  \<^verbatim>\<open>v.<method>(arg)\<close>. No step changes the name or the variable of a frame: the
  frames that are on the stack before a node is handled, and before a node and its
  subtree are visited, are on the stack afterwards at the same positions with the
  same names and variables.
\<close>

theorem dynamic_marking_is_by_name:
  "(getCurrentNamespaceForIdentifier v (namespaces s) = Some frame \<longrightarrow>
      (let before = namespaces s;
           after = namespaces (snd (directCall (CallExpression cs (Identifier c1 v) cs_targs (a # args)) (k, s)));
           after' = namespaces (snd (methodCall
                      (CallExpression cs (PropertyAccessExpression c1 (Identifier c2 v) c1_qdot m) cs_targs (a # args))
                      (k, s)))
       in length after = length before \<and> after' = after \<and>
          (\<forall>i<length before.
              name (after ! i) = name (before ! i) \<and>
              variable (after ! i) = variable (before ! i) \<and>
              dynamic (after ! i) =
                (dynamic (before ! i) \<or>
                 (isIdentifier a \<or> isTemplateExpression a) \<and> name (before ! i) = name frame)))) \<and>
   namespaces (snd (directCall (CallExpression cs (Identifier c1 v) cs_targs []) (k, s))) = namespaces s \<and>
   namespaces (snd (methodCall
      (CallExpression cs (PropertyAccessExpression c1 (Identifier c2 v) c1_qdot m) cs_targs []) (k, s))) = namespaces s \<and>
   (visitNode reg path n s = Some s1 \<longrightarrow>
      length (namespaces s) \<le> length (namespaces s1) \<and>
      map name (take (length (namespaces s)) (namespaces s1)) = map name (namespaces s) \<and>
      map variable (take (length (namespaces s)) (namespaces s1)) = map variable (namespaces s)) \<and>
   (visit reg path n s = Some s' \<longrightarrow>
      length (namespaces s) \<le> length (namespaces s') \<and>
      map name (take (length (namespaces s)) (namespaces s')) = map name (namespaces s) \<and>
      map variable (take (length (namespaces s)) (namespaces s')) = map variable (namespaces s))"
proof -
  have flags: "length (setNamespaceAsDynamic (name frame) ns) = length ns \<and>
      (\<forall>i<length ns.
          name (setNamespaceAsDynamic (name frame) ns ! i) = name (ns ! i) \<and>
          variable (setNamespaceAsDynamic (name frame) ns ! i) = variable (ns ! i) \<and>
          dynamic (setNamespaceAsDynamic (name frame) ns ! i)
            = (dynamic (ns ! i) \<or> name (ns ! i) = name frame))" for ns
    by (simp add: setNamespaceAsDynamic_def)
  have viaCall: "namespaces (snd (directCall (CallExpression cs (Identifier c1 v) cs_targs (a # args)) (k, s)))
      = (if isIdentifier a \<or> isTemplateExpression a
         then setNamespaceAsDynamic (name frame) (namespaces s) else namespaces s)"
    and viaMethod: "namespaces (snd (methodCall
          (CallExpression cs (PropertyAccessExpression c1 (Identifier c2 v) c1_qdot m) cs_targs (a # args)) (k, s)))
      = (if isIdentifier a \<or> isTemplateExpression a
         then setNamespaceAsDynamic (name frame) (namespaces s) else namespaces s)"
    if "getCurrentNamespaceForIdentifier v (namespaces s) = Some frame"
    using that resolve_nonempty [OF that]
    by (simp_all add: directCall_def methodCall_def translatorCall_stack stackAfterCall_def)
  have none: "namespaces (snd (directCall (CallExpression cs (Identifier c1 v) cs_targs []) (k, s))) = namespaces s"
    "namespaces (snd (methodCall
      (CallExpression cs (PropertyAccessExpression c1 (Identifier c2 v) c1_qdot m) cs_targs []) (k, s))) = namespaces s"
    by (simp_all add: directCall_def methodCall_def translatorCall_stack stackAfterCall_def
        split: option.splits)
  have node: "framesKept (namespaces s) (namespaces s1)" if "visitNode reg path n s = Some s1"
    using visitNode_grows [OF that] by (simp add: grows_def)
  have tree: "framesKept (namespaces s) (namespaces s')" if "visit reg path n s = Some s'"
    using visit_grows [OF that] by (simp add: grows_def)
  show ?thesis
    using viaCall viaMethod none flags [of "namespaces s"] framesKept_fields [OF node]
      framesKept_fields [OF tree]
    by (simp add: Let_def)
qed

theorem dynamic_marking_is_by_name_witness:
  "getCurrentNamespaceForIdentifier ''u''
     [\<lparr>name = ''Shared'', variable = ''t'', dynamic = False\<rparr>,
      \<lparr>name = ''Other'', variable = ''o'', dynamic = False\<rparr>,
      \<lparr>name = ''Shared'', variable = ''u'', dynamic = False\<rparr>]
     = Some \<lparr>name = ''Shared'', variable = ''u'', dynamic = False\<rparr> \<and>
   isIdentifier (ident ''key'') \<and>
   visit [] ''a.tsx'' (call (ident ''u'') [ident ''key''])
     \<lparr>namespaces = [\<lparr>name = ''Shared'', variable = ''t'', dynamic = False\<rparr>,
                     \<lparr>name = ''Other'', variable = ''o'', dynamic = False\<rparr>,
                     \<lparr>name = ''Shared'', variable = ''u'', dynamic = False\<rparr>],
      foundKeys = []\<rparr>
     = Some \<lparr>namespaces = [\<lparr>name = ''Shared'', variable = ''t'', dynamic = True\<rparr>,
                           \<lparr>name = ''Other'', variable = ''o'', dynamic = False\<rparr>,
                           \<lparr>name = ''Shared'', variable = ''u'', dynamic = True\<rparr>],
            foundKeys = []\<rparr> \<and>
   map dynamic (namespaces (snd (directCall (call (ident ''u'') [ident ''key''])
     (None, \<lparr>namespaces = [\<lparr>name = ''Shared'', variable = ''t'', dynamic = False\<rparr>,
                             \<lparr>name = ''Other'', variable = ''o'', dynamic = False\<rparr>,
                             \<lparr>name = ''Shared'', variable = ''u'', dynamic = False\<rparr>],
              foundKeys = []\<rparr>)))) = [True, False, True]"
proof -
  let ?s = "\<lparr>namespaces = [\<lparr>name = ''Shared'', variable = ''t'', dynamic = False\<rparr>,
                     \<lparr>name = ''Other'', variable = ''o'', dynamic = False\<rparr>,
                     \<lparr>name = ''Shared'', variable = ''u'', dynamic = False\<rparr>],
      foundKeys = []\<rparr>"
  have r: "getCurrentNamespaceForIdentifier ''u'' (namespaces ?s)
     = Some \<lparr>name = ''Shared'', variable = ''u'', dynamic = False\<rparr>"
    by code_simp
  have v: "visit [] ''a.tsx'' (call (ident ''u'') [ident ''key'']) ?s
     = Some \<lparr>namespaces = [\<lparr>name = ''Shared'', variable = ''t'', dynamic = True\<rparr>,
                           \<lparr>name = ''Other'', variable = ''o'', dynamic = False\<rparr>,
                           \<lparr>name = ''Shared'', variable = ''u'', dynamic = True\<rparr>],
            foundKeys = []\<rparr>"
    by code_simp
  have d: "map dynamic (namespaces (snd (directCall (call (ident ''u'') [ident ''key'']) (None, ?s))))
     = [True, False, True]"
    by code_simp
  from dynamic_marking_is_by_name [where s = ?s and v = "''u''" and a = "ident ''key''"
      and frame = "\<lparr>name = ''Shared'', variable = ''u'', dynamic = False\<rparr>"
      and n = "call (ident ''u'') [ident ''key'']" and reg = "[]" and path = "''a.tsx''"
      and s' = "\<lparr>namespaces = [\<lparr>name = ''Shared'', variable = ''t'', dynamic = True\<rparr>,
                           \<lparr>name = ''Other'', variable = ''o'', dynamic = False\<rparr>,
                           \<lparr>name = ''Shared'', variable = ''u'', dynamic = True\<rparr>],
            foundKeys = []\<rparr>"]
  show ?thesis
    using r v d by simp
qed

end
